theory Spec2Isabelle
  imports Main "HOL-Library.Sublist"
begin

section \<open>Text buffers\<close>

text \<open>
  Both scripts read \<^verbatim>\<open>main.js\<close> into a Python \<^verbatim>\<open>str\<close>, a sequence of Unicode code
  points. A buffer is therefore a list of code points (natural numbers); \<open>str\<close> turns an
  ASCII literal into such a list.
\<close>

type_synonym codepoint = nat
type_synonym buffer = "codepoint list"

definition str :: "string \<Rightarrow> buffer" where
  "str s = map of_char s"

text \<open>
  The characters that \<^verbatim>\<open>\s\<close> matches in a \<^verbatim>\<open>str\<close> pattern: the Unicode white space of
  Python's \<^verbatim>\<open>re\<close> module.
\<close>

definition is_space :: "codepoint \<Rightarrow> bool" where
  "is_space c \<longleftrightarrow>
     (9 \<le> c \<and> c \<le> 13) \<or> (28 \<le> c \<and> c \<le> 32) \<or> c = 133 \<or> c = 160 \<or> c = 5760 \<or>
     (8192 \<le> c \<and> c \<le> 8202) \<or> c = 8232 \<or> c = 8233 \<or> c = 8239 \<or> c = 8287 \<or> c = 12288"

section \<open>The fragment of \<^verbatim>\<open>re\<close> that the scripts use\<close>

text \<open>
  Every pattern of the two scripts is a sequence of literal characters (escaped where the
  character is special) and of \<^verbatim>\<open>\s+\<close>. Where a pattern has a capture group, its
  parentheses enclose the whole pattern, so that group 1 is the whole match.
\<close>

datatype atom = Lit codepoint | WsPlus

type_synonym regex = "atom list"

definition lits :: "string \<Rightarrow> regex" where
  "lits s = map (\<lambda>c. Lit (of_char c)) s"

text \<open>
  \<open>backtrack k x j\<close> is the greedy \<^verbatim>\<open>+\<close>: it tries the continuation \<open>k\<close> after
  \<open>j\<close> characters, then after \<open>j - 1\<close>, down to one character, and keeps the first success.
\<close>

primrec backtrack :: "(buffer \<Rightarrow> nat option) \<Rightarrow> buffer \<Rightarrow> nat \<Rightarrow> nat option" where
  "backtrack k x 0 = None"
| "backtrack k x (Suc j) =
     (case k (drop (Suc j) x) of
        Some n \<Rightarrow> Some (Suc j + n)
      | None \<Rightarrow> backtrack k x j)"

text \<open>\<open>re_match p x\<close> is the length of the match of \<open>p\<close> at the start of \<open>x\<close>, if there is one.\<close>

primrec re_match :: "regex \<Rightarrow> buffer \<Rightarrow> nat option" where
  "re_match [] x = Some 0"
| "re_match (a # p) x =
     (case a of
        Lit c \<Rightarrow>
          (case x of
             [] \<Rightarrow> None
           | d # ds \<Rightarrow> if d = c then map_option Suc (re_match p ds) else None)
      | WsPlus \<Rightarrow> backtrack (re_match p) x (length (takeWhile is_space x)))"

text \<open>
  A replacement template is literal text (with \<^verbatim>\<open>\n\<close> already a line feed) and
  references to group 1.
\<close>

datatype tpart = Txt buffer | Group1

type_synonym template = "tpart list"

fun expand :: "template \<Rightarrow> buffer \<Rightarrow> buffer" where
  "expand [] m = []"
| "expand (Txt t # r) m = t @ expand r m"
| "expand (Group1 # r) m = m @ expand r m"

text \<open>
  \<^verbatim>\<open>re.sub(pattern, repl, string)\<close> with the default \<^verbatim>\<open>count=0\<close>: scan from the left,
  replace the match found at the current position and go on behind it, otherwise copy one
  character. Only the empty pattern has empty matches; they are replaced before every
  character and at the end.
\<close>

fun re_sub :: "regex \<Rightarrow> template \<Rightarrow> buffer \<Rightarrow> buffer" where
  "re_sub p r [] = (case re_match p [] of None \<Rightarrow> [] | Some n \<Rightarrow> expand r [])"
| "re_sub p r (c # cs) =
     (case re_match p (c # cs) of
        None \<Rightarrow> c # re_sub p r cs
      | Some 0 \<Rightarrow> expand r [] @ c # re_sub p r cs
      | Some (Suc n) \<Rightarrow> expand r (take (Suc n) (c # cs)) @ re_sub p r (drop n cs))"

text \<open>Whether \<open>p\<close> matches somewhere in \<open>s\<close>.\<close>

fun has_match :: "regex \<Rightarrow> buffer \<Rightarrow> bool" where
  "has_match p [] = (re_match p [] \<noteq> None)"
| "has_match p (c # cs) = (re_match p (c # cs) \<noteq> None \<or> has_match p cs)"

section \<open>Rules\<close>

type_synonym rule = "regex \<times> template"

fun apply_rule :: "rule \<Rightarrow> buffer \<Rightarrow> buffer" where
  "apply_rule (p, r) content = re_sub p r content"

definition apply_rules :: "rule list \<Rightarrow> buffer \<Rightarrow> buffer" where
  "apply_rules rs content = foldl (\<lambda>b r. apply_rule r b) content rs"

subsection \<open>\<^verbatim>\<open>update_medical.py\<close>\<close>

definition medical_pattern1 :: regex where
  "medical_pattern1 =
     lits ''if (object.userData.type === 'trashTruck' || object.userData.type === 'convoyeur' || object.userData.type === 'sensorSensei')''"

definition medical_replacement1 :: template where
  "medical_replacement1 =
     [Txt (str ''if (object.userData.type === 'trashTruck' || object.userData.type === 'convoyeur' || object.userData.type === 'sensorSensei' || object.userData.type === 'medical')'')]"

definition medical_pattern2 :: regex where
  "medical_pattern2 =
     WsPlus # lits ''if (object.userData.type === 'sensorSensei' && !sensorSenseiModalClosed) {''
     @ WsPlus # lits ''showSensorSenseiModal();''
     @ WsPlus # lits ''}''"

definition medical_replacement2 :: template where
  "medical_replacement2 =
     [Group1,
      Txt (10 # str ''        if (object.userData.type === 'medical' && !medicalModalClosed) {''),
      Txt (10 # str ''          showMedicalModal();''),
      Txt (10 # str ''        }'')]"

definition medical_pattern3 :: regex where
  "medical_pattern3 =
     WsPlus # lits ''// Reset sensorSensei modal state when navigating to different areas''
     @ WsPlus # lits ''sensorSenseiModalClosed = false;''
     @ WsPlus # lits ''sensorSenseiModalOpened = false;''"

definition medical_replacement3 :: template where
  "medical_replacement3 =
     [Group1,
      Txt (10 # str ''      ''),
      Txt (10 # str ''      // Reset medical modal state when navigating to different areas''),
      Txt (10 # str ''      medicalModalClosed = false;''),
      Txt (10 # str ''      medicalModalOpened = false;'')]"

definition medical_pattern4 :: regex where
  "medical_pattern4 =
     lits ''// Handle objects that don't need camera movement (trashTruck, convoyeur, sensorSensei)''"

definition medical_replacement4 :: template where
  "medical_replacement4 =
     [Txt (str ''// Handle objects that don't need camera movement (trashTruck, convoyeur, sensorSensei, medical)'')]"

definition medical_rules :: "rule list" where
  "medical_rules =
     [(medical_pattern1, medical_replacement1),
      (medical_pattern2, medical_replacement2),
      (medical_pattern3, medical_replacement3),
      (medical_pattern4, medical_replacement4)]"

text \<open>The four \<^verbatim>\<open>content = re.sub(...)\<close> statements of the script, in their order.\<close>

definition medical_transform :: "buffer \<Rightarrow> buffer" where
  "medical_transform content0 =
     (let content1 = re_sub medical_pattern1 medical_replacement1 content0;
          content2 = re_sub medical_pattern2 medical_replacement2 content1;
          content3 = re_sub medical_pattern3 medical_replacement3 content2;
          content4 = re_sub medical_pattern4 medical_replacement4 content3
      in content4)"

subsection \<open>\<^verbatim>\<open>update_forvia.py\<close>\<close>

text \<open>
  The parentheses of \<open>pattern1\<close> are not escaped: they are a capture group around the
  whole pattern and match no character.
\<close>

definition pattern1 :: regex where
  "pattern1 =
     lits (''object.userData.type === 'trashTruck' || object.userData.type === 'convoyeur' || object.userData.type === 'sensorSensei' || object.userData.type === 'medical'' @ [CHR 0x27])"

definition replacement1 :: template where
  "replacement1 =
     [Txt (str (''object.userData.type === 'trashTruck' || object.userData.type === 'convoyeur' || object.userData.type === 'sensorSensei' || object.userData.type === 'medical' || object.userData.type === 'forviaCAR'' @ [CHR 0x27]))]"

definition pattern2 :: regex where
  "pattern2 =
     WsPlus # lits ''if (object.userData.type === 'medical' && !medicalModalClosed) {''
     @ WsPlus # lits ''showMedicalModal();''
     @ WsPlus # lits ''}''"

definition replacement2 :: template where
  "replacement2 =
     [Group1,
      Txt (10 # str ''        if (object.userData.type === 'forviaCAR' && !forviaCarModalClosed) {''),
      Txt (10 # str ''          showForviaCarModal();''),
      Txt (10 # str ''        }'')]"

definition pattern3 :: regex where
  "pattern3 =
     lits ''// Handle objects that don't need camera movement (trashTruck, convoyeur, sensorSensei, medical)''"

definition replacement3 :: template where
  "replacement3 =
     [Txt (str ''// Handle objects that don't need camera movement (trashTruck, convoyeur, sensorSensei, medical, forviaCAR)'')]"

definition pattern4 :: regex where
  "pattern4 =
     WsPlus # lits ''// Reset medical modal state when going back to overview''
     @ WsPlus # lits ''medicalModalClosed = false;''
     @ WsPlus # lits ''medicalModalOpened = false;''"

definition replacement4 :: template where
  "replacement4 =
     [Group1,
      Txt (10 # str ''    ''),
      Txt (10 # str ''    // Reset forviaCAR modal state when going back to overview''),
      Txt (10 # str ''    forviaCarModalClosed = false;''),
      Txt (10 # str ''    forviaCarModalOpened = false;'')]"

definition pattern5 :: regex where
  "pattern5 =
     WsPlus # lits ''// Reset medical modal state when navigating to different areas''
     @ WsPlus # lits ''medicalModalClosed = false;''
     @ WsPlus # lits ''medicalModalOpened = false;''"

definition replacement5 :: template where
  "replacement5 =
     [Group1,
      Txt (10 # str ''      ''),
      Txt (10 # str ''      // Reset forviaCAR modal state when navigating to different areas''),
      Txt (10 # str ''      forviaCarModalClosed = false;''),
      Txt (10 # str ''      forviaCarModalOpened = false;'')]"

definition forvia_rules :: "rule list" where
  "forvia_rules =
     [(pattern1, replacement1),
      (pattern2, replacement2),
      (pattern3, replacement3),
      (pattern4, replacement4),
      (pattern5, replacement5)]"

text \<open>The five \<^verbatim>\<open>content = re.sub(...)\<close> statements under "Apply all replacements".\<close>

definition forvia_transform :: "buffer \<Rightarrow> buffer" where
  "forvia_transform content0 =
     (let content1 = re_sub pattern1 replacement1 content0;
          content2 = re_sub pattern2 replacement2 content1;
          content3 = re_sub pattern3 replacement3 content2;
          content4 = re_sub pattern4 replacement4 content3;
          content5 = re_sub pattern5 replacement5 content4
      in content5)"

section \<open>The runs: read, substitute, write, print\<close>

text \<open>
  The world of a run is the file \<^verbatim>\<open>main.js\<close> and the standard output. \<open>main_js\<close> is the
  text that reading the file returns, or \<open>None\<close> when the file cannot be opened or decoded;
  \<open>writable\<close> says whether opening it for writing succeeds. An exception ends the run where
  it is raised. The decoding and the translation of line ends that \<^verbatim>\<open>open\<close> performs
  lie below this model: a buffer is the text as Python sees it.
\<close>

datatype error = ReadError | WriteError

record world =
  main_js :: "buffer option"
  writable :: bool
  stdout :: "buffer list"

definition run :: "(buffer \<Rightarrow> buffer) \<Rightarrow> buffer \<Rightarrow> world \<Rightarrow> (error + unit) \<times> world" where
  "run transform message w =
     (case main_js w of
        None \<Rightarrow> (Inl ReadError, w)
      | Some content \<Rightarrow>
          let content' = transform content in
          if \<not> writable w then (Inl WriteError, w)
          else (Inr (), w\<lparr>main_js := Some content', stdout := stdout w @ [message]\<rparr>))"

definition update_medical :: "world \<Rightarrow> (error + unit) \<times> world" where
  "update_medical = run medical_transform (str ''Medical integration completed successfully!'')"

definition update_forvia_integration :: "world \<Rightarrow> (error + unit) \<times> world" where
  "update_forvia_integration =
     run forvia_transform (str ''FORVIA car integration completed successfully!'')"

section \<open>Sample buffers\<close>

text \<open>A sensorSensei modal call, as pattern 2 of \<^verbatim>\<open>update_medical.py\<close> looks for it.\<close>

definition sensor_block :: buffer where
  "sensor_block =
     str '' if (object.userData.type === 'sensorSensei' && !sensorSenseiModalClosed) { showSensorSenseiModal(); }''"

text \<open>The lines that replacement 2 of \<^verbatim>\<open>update_medical.py\<close> puts behind group 1.\<close>

definition medical_modal_block :: buffer where
  "medical_modal_block = expand medical_replacement2 []"

text \<open>The condition line that pattern 1 of \<^verbatim>\<open>update_medical.py\<close> looks for.\<close>

definition condition_line :: buffer where
  "condition_line =
     str ''if (object.userData.type === 'trashTruck' || object.userData.type === 'convoyeur' || object.userData.type === 'sensorSensei')''"

text \<open>The text that pattern 1 of \<^verbatim>\<open>update_forvia.py\<close> matches.\<close>

definition medical_condition :: buffer where
  "medical_condition =
     str (''object.userData.type === 'trashTruck' || object.userData.type === 'convoyeur' || object.userData.type === 'sensorSensei' || object.userData.type === 'medical'' @ [CHR 0x27])"

text \<open>The comment that pattern 4 of \<^verbatim>\<open>update_medical.py\<close> looks for.\<close>

definition camera_comment :: buffer where
  "camera_comment =
     str ''// Handle objects that don't need camera movement (trashTruck, convoyeur, sensorSensei)''"

text \<open>
  The comment that replacement 4 of \<^verbatim>\<open>update_medical.py\<close> writes and that pattern 3 of
  \<^verbatim>\<open>update_forvia.py\<close> looks for.
\<close>

definition medical_comment :: buffer where
  "medical_comment =
     str ''// Handle objects that don't need camera movement (trashTruck, convoyeur, sensorSensei, medical)''"

text \<open>The end of the condition line after rule 1 of \<^verbatim>\<open>update_medical.py\<close>.\<close>

definition medical_condition_end :: buffer where
  "medical_condition_end =
     str ''|| object.userData.type === 'sensorSensei' || object.userData.type === 'medical')''"

text \<open>The reset block that replacement 3 of \<^verbatim>\<open>update_medical.py\<close> puts behind group 1.\<close>

definition medical_reset_areas :: buffer where
  "medical_reset_areas = expand medical_replacement3 []"

section \<open>Matches in a buffer\<close>

text \<open>
  The matches that the scan of \<open>re_sub\<close> finds in a buffer, from left to right and without
  overlap, as \<^verbatim>\<open>re.findall\<close> returns them for a pattern whose group is the whole match.
\<close>

fun find_all :: "regex \<Rightarrow> buffer \<Rightarrow> buffer list" where
  "find_all p [] = (case re_match p [] of None \<Rightarrow> [] | Some n \<Rightarrow> [[]])"
| "find_all p (c # cs) =
     (case re_match p (c # cs) of
        None \<Rightarrow> find_all p cs
      | Some 0 \<Rightarrow> [] # find_all p cs
      | Some (Suc n) \<Rightarrow> take (Suc n) (c # cs) # find_all p (drop n cs))"

text \<open>The number of positions of a buffer at which the text \<open>u\<close> stands.\<close>

fun occurrences :: "buffer \<Rightarrow> buffer \<Rightarrow> nat" where
  "occurrences u [] = (if u = [] then 1 else 0)"
| "occurrences u (c # cs) = (if prefix u (c # cs) then 1 else 0) + occurrences u cs"

text \<open>
  A buffer cut into the matches that are replaced (\<open>Hit\<close>) and the text between them
  (\<open>Keep\<close>). \<open>unmatched p u y\<close> says that no match starts in \<open>u\<close> when \<open>y\<close> follows it;
  \<open>segmented\<close> says that each \<open>Hit\<close> is the match at its position and that no match starts
  in a \<open>Keep\<close>.
\<close>

datatype segment = Keep buffer | Hit buffer

fun source :: "segment list \<Rightarrow> buffer" where
  "source [] = []"
| "source (Keep u # segs) = u @ source segs"
| "source (Hit m # segs) = m @ source segs"

fun unmatched :: "regex \<Rightarrow> buffer \<Rightarrow> buffer \<Rightarrow> bool" where
  "unmatched p [] y = True"
| "unmatched p (c # u) y = (re_match p (c # u @ y) = None \<and> unmatched p u y)"

fun segmented :: "regex \<Rightarrow> segment list \<Rightarrow> bool" where
  "segmented p [] = True"
| "segmented p (Keep u # segs) = (unmatched p u (source segs) \<and> segmented p segs)"
| "segmented p (Hit m # segs) =
     (m \<noteq> [] \<and> re_match p (m @ source segs) = Some (length m) \<and> segmented p segs)"

section \<open>White space squeezed\<close>

text \<open>
  \<open>squeeze\<close> turns every run of white space into one space character. The text of a match
  of a pattern in which no two neighbours can both match white space squeezes to the
  \<open>outline\<close> of the pattern, whatever white space the buffer has.
\<close>

fun squeeze_from :: "bool \<Rightarrow> buffer \<Rightarrow> buffer" where
  "squeeze_from b [] = []"
| "squeeze_from b (c # cs) =
     (if is_space c then (if b then squeeze_from True cs else 32 # squeeze_from True cs)
      else c # squeeze_from False cs)"

definition squeeze :: "buffer \<Rightarrow> buffer" where
  "squeeze = squeeze_from False"

fun space_atom :: "atom \<Rightarrow> bool" where
  "space_atom WsPlus = True"
| "space_atom (Lit c) = is_space c"

fun outline_atom :: "atom \<Rightarrow> codepoint" where
  "outline_atom WsPlus = 32"
| "outline_atom (Lit c) = (if is_space c then 32 else c)"

definition outline :: "regex \<Rightarrow> buffer" where
  "outline p = map outline_atom p"

text \<open>No two neighbours match white space, and the last atom is a character that is not white space.\<close>

fun separated :: "regex \<Rightarrow> bool" where
  "separated [] = False"
| "separated [a] = (\<not> space_atom a)"
| "separated (a # b # p) = (\<not> (space_atom a \<and> space_atom b) \<and> separated (b # p))"

text \<open>\<open>overlap a b\<close>: a suffix of \<open>a\<close> that is not empty is a prefix of \<open>b\<close>.\<close>

fun overlap :: "buffer \<Rightarrow> buffer \<Rightarrow> bool" where
  "overlap [] b = False"
| "overlap (c # a) b = (prefix (c # a) b \<or> overlap a b)"

section \<open>The blocks of the forviaCAR integration\<close>





definition reset_overview_outline :: buffer where
  "reset_overview_outline =
     str '' // Reset medical modal state when going back to overview medicalModalClosed = false; medicalModalOpened = false;''"





section \<open>The texts that the rules write and require\<close>








section \<open>The matcher\<close>

lemma backtrack_Some:
  "backtrack k x j = Some n \<Longrightarrow> \<exists>i m. 0 < i \<and> i \<le> j \<and> k (drop i x) = Some m \<and> n = i + m"
proof (induction j)
  case 0
  then show ?case by simp
next
  case (Suc j)
  show ?case
  proof (cases "k (drop (Suc j) x)")
    case None
    with Suc.prems have "backtrack k x j = Some n" by simp
    from Suc.IH [OF this] show ?thesis by (auto intro: le_SucI)
  next
    case (Some m)
    with Suc.prems have "n = Suc j + m" by simp
    with Some show ?thesis by blast
  qed
qed

lemma backtrack_None:
  "backtrack k x j = None \<longleftrightarrow> (\<forall>i. 0 < i \<and> i \<le> j \<longrightarrow> k (drop i x) = None)"
proof (induction j)
  case 0
  then show ?case by simp
next
  case (Suc j)
  show ?case
  proof (cases "k (drop (Suc j) x)")
    case None
    then show ?thesis using Suc.IH by (auto simp: le_Suc_eq)
  next
    case (Some m)
    then show ?thesis by auto
  qed
qed


lemma re_match_le: "re_match p x = Some n \<Longrightarrow> n \<le> length x"
proof (induction p arbitrary: x n)
  case Nil
  then show ?case by simp
next
  case (Cons a p)
  show ?case
  proof (cases a)
    case (Lit c)
    with Cons.prems obtain ds n' where "x = c # ds" "re_match p ds = Some n'" "n = Suc n'"
      by (auto split: list.splits if_splits)
    with Cons.IH show ?thesis by auto
  next
    case WsPlus
    with Cons.prems have "backtrack (re_match p) x (length (takeWhile is_space x)) = Some n"
      by simp
    from backtrack_Some [OF this] obtain i m where
      im: "0 < i" "i \<le> length (takeWhile is_space x)" "re_match p (drop i x) = Some m" "n = i + m"
      by blast
    have "i \<le> length x" using im(2) length_takeWhile_le [of is_space x] by linarith
    moreover have "m \<le> length x - i" using Cons.IH [OF im(3)] by simp
    ultimately show ?thesis using im(4) by linarith
  qed
qed

lemma re_match_ge: "re_match p x = Some n \<Longrightarrow> length p \<le> n"
proof (induction p arbitrary: x n)
  case Nil
  then show ?case by simp
next
  case (Cons a p)
  show ?case
  proof (cases a)
    case (Lit c)
    with Cons.prems obtain ds n' where "x = c # ds" "re_match p ds = Some n'" "n = Suc n'"
      by (auto split: list.splits if_splits)
    with Cons.IH show ?thesis by auto
  next
    case WsPlus
    with Cons.prems have "backtrack (re_match p) x (length (takeWhile is_space x)) = Some n"
      by simp
    from backtrack_Some [OF this] obtain i m where
      im: "0 < i" "re_match p (drop i x) = Some m" "n = i + m"
      by blast
    from Cons.IH [OF im(2)] im(1,3) show ?thesis by simp
  qed
qed

lemma re_match_pos: "p \<noteq> [] \<Longrightarrow> re_match p x = Some n \<Longrightarrow> 0 < n"
  using re_match_ge [of p x n] by (cases p) auto

lemma re_sub_no_match: "\<not> has_match p s \<Longrightarrow> re_sub p r s = s"
  by (induction s) auto

lemma has_match_iff: "has_match p s \<longleftrightarrow> (\<exists>k\<le>length s. re_match p (drop k s) \<noteq> None)"
proof (induction s)
  case Nil
  then show ?case by simp
next
  case (Cons c cs)
  show ?case
  proof
    assume "has_match p (c # cs)"
    then consider "re_match p (c # cs) \<noteq> None" | "has_match p cs" by auto
    then show "\<exists>k\<le>length (c # cs). re_match p (drop k (c # cs)) \<noteq> None"
    proof cases
      case 1
      then have "re_match p (drop 0 (c # cs)) \<noteq> None" by simp
      then show ?thesis by blast
    next
      case 2
      with Cons.IH obtain k where "k \<le> length cs" "re_match p (drop k cs) \<noteq> None" by blast
      then have "Suc k \<le> length (c # cs)" "re_match p (drop (Suc k) (c # cs)) \<noteq> None" by auto
      then show ?thesis by blast
    qed
  next
    assume "\<exists>k\<le>length (c # cs). re_match p (drop k (c # cs)) \<noteq> None"
    then obtain k where k: "k \<le> length (c # cs)" "re_match p (drop k (c # cs)) \<noteq> None" by blast
    show "has_match p (c # cs)"
    proof (cases k)
      case 0
      with k show ?thesis by simp
    next
      case (Suc k')
      with k have "k' \<le> length cs" "re_match p (drop k' cs) \<noteq> None" by auto
      with Cons.IH have "has_match p cs" by blast
      then show ?thesis by simp
    qed
  qed
qed

lemma re_sub_hit:
  assumes "re_match p x = Some n" "0 < n"
  shows "re_sub p r x = expand r (take n x) @ re_sub p r (drop n x)"
proof -
  from assms re_match_le [OF assms(1)] obtain c cs where x: "x = c # cs" by (cases x) auto
  from assms(2) obtain n' where n: "n = Suc n'" by (cases n) auto
  show ?thesis using assms(1) unfolding x n by simp
qed

lemma re_sub_skip:
  "(\<And>k. k < length pre \<Longrightarrow> re_match p (drop k (pre @ x)) = None)
    \<Longrightarrow> re_sub p r (pre @ x) = pre @ re_sub p r x"
proof (induction pre)
  case Nil
  then show ?case by simp
next
  case (Cons c pre)
  have "re_match p (drop 0 ((c # pre) @ x)) = None" by (rule Cons.prems) simp
  then have h: "re_match p (c # pre @ x) = None" by simp
  have "re_sub p r (pre @ x) = pre @ re_sub p r x"
  proof (rule Cons.IH)
    fix k assume "k < length pre"
    then have "re_match p (drop (Suc k) ((c # pre) @ x)) = None" by (intro Cons.prems) simp
    then show "re_match p (drop k (pre @ x)) = None" by simp
  qed
  with h show ?case by simp
qed

section \<open>The rule sequence as a fold\<close>

lemma medical_transform_fold: "medical_transform content = apply_rules medical_rules content"
  by (simp add: medical_transform_def apply_rules_def medical_rules_def)

lemma forvia_transform_fold: "forvia_transform content = apply_rules forvia_rules content"
  by (simp add: forvia_transform_def apply_rules_def forvia_rules_def)

lemma apply_rules_no_match:
  "(\<And>r. r \<in> set rs \<Longrightarrow> \<not> has_match (fst r) content) \<Longrightarrow> apply_rules rs content = content"
proof (induction rs)
  case Nil
  then show ?case by (simp add: apply_rules_def)
next
  case (Cons r rs)
  obtain p t where r: "r = (p, t)" by (cases r)
  have "\<not> has_match (fst r) content" by (rule Cons.prems) simp
  then have "apply_rule r content = content" by (simp add: r re_sub_no_match)
  moreover have "apply_rules rs content = content" by (rule Cons.IH) (simp add: Cons.prems)
  ultimately show ?case by (simp add: apply_rules_def)
qed

section \<open>A rule whose pattern matches nowhere\<close>

text \<open>
  Claim C4. For every rule (pattern, replacement), of the two scripts or not, and every buffer
  in which the pattern matches at no position, applying the rule returns the buffer as it
  is. \<open>apply_rule\<close> is a total function with a buffer as its value: there is no error and
  no other signal.
\<close>

theorem rule_without_match_is_noop:
  "\<not> has_match (fst rule) content \<Longrightarrow> apply_rule rule content = content"
  by (cases rule) (simp add: re_sub_no_match)

theorem rule_without_match_is_noop_witness:
  "\<not> has_match (fst (pattern4, replacement4)) (str ''a b'') \<and>
   apply_rule (pattern4, replacement4) (str ''a b'') = str ''a b''"
proof -
  have h: "\<not> has_match (fst (pattern4, replacement4)) (str ''a b'')"
    by (simp add: pattern4_def str_def lits_def is_space_def)
  from h rule_without_match_is_noop [OF h] show ?thesis by (rule conjI)
qed

section \<open>A run on a buffer that no pattern matches\<close>

text \<open>
  Claim C5. When \<^verbatim>\<open>main.js\<close> can be read and written and its text matches none of the
  patterns of a script, the buffer after the substitutions is the buffer that was read, the
  run writes that same text back, prints its fixed message and ends normally. This holds
  for \<^verbatim>\<open>update_medical.py\<close> and for \<^verbatim>\<open>update_forvia.py\<close>.
\<close>

theorem unmatched_buffer_run_identity:
  assumes "main_js w = Some content" "writable w"
  shows "((\<forall>r\<in>set medical_rules. \<not> has_match (fst r) content) \<longrightarrow>
            medical_transform content = content \<and>
            update_medical w =
              (Inr (), w\<lparr>main_js := Some content,
                         stdout := stdout w @ [str ''Medical integration completed successfully!'']\<rparr>))
       \<and> ((\<forall>r\<in>set forvia_rules. \<not> has_match (fst r) content) \<longrightarrow>
            forvia_transform content = content \<and>
            update_forvia_integration w =
              (Inr (), w\<lparr>main_js := Some content,
                         stdout := stdout w @ [str ''FORVIA car integration completed successfully!'']\<rparr>))"
proof (intro conjI impI)
  assume a: "\<forall>r\<in>set medical_rules. \<not> has_match (fst r) content"
  show m: "medical_transform content = content"
    unfolding medical_transform_fold using a by (intro apply_rules_no_match) blast
  show "update_medical w =
      (Inr (), w\<lparr>main_js := Some content,
                 stdout := stdout w @ [str ''Medical integration completed successfully!'']\<rparr>)"
    using assms m by (simp add: update_medical_def run_def)
next
  assume a: "\<forall>r\<in>set forvia_rules. \<not> has_match (fst r) content"
  show m: "forvia_transform content = content"
    unfolding forvia_transform_fold using a by (intro apply_rules_no_match) blast
  show "update_forvia_integration w =
      (Inr (), w\<lparr>main_js := Some content,
                 stdout := stdout w @ [str ''FORVIA car integration completed successfully!'']\<rparr>)"
    using assms m by (simp add: update_forvia_integration_def run_def)
qed


lemmas pattern_defs =
  medical_pattern1_def medical_pattern2_def medical_pattern3_def medical_pattern4_def
  pattern1_def pattern2_def pattern3_def pattern4_def pattern5_def

theorem unmatched_buffer_run_identity_witness:
  "update_medical \<lparr>main_js = Some (str ''a b''), writable = True, stdout = []\<rparr> =
     (Inr (), \<lparr>main_js = Some (str ''a b''), writable = True,
               stdout = [str ''Medical integration completed successfully!'']\<rparr>)
   \<and> update_forvia_integration \<lparr>main_js = Some (str ''a b''), writable = True, stdout = []\<rparr> =
     (Inr (), \<lparr>main_js = Some (str ''a b''), writable = True,
               stdout = [str ''FORVIA car integration completed successfully!'']\<rparr>)"
proof -
  let ?w = "\<lparr>main_js = Some (str ''a b''), writable = True, stdout = []\<rparr>"
  have r: "main_js ?w = Some (str ''a b'')" and wr: "writable ?w" by simp_all
  have m: "\<forall>r\<in>set medical_rules. \<not> has_match (fst r) (str ''a b'')"
    by (simp add: medical_rules_def pattern_defs str_def lits_def is_space_def)
  have f: "\<forall>r\<in>set forvia_rules. \<not> has_match (fst r) (str ''a b'')"
    by (simp add: forvia_rules_def pattern_defs str_def lits_def is_space_def)
  from unmatched_buffer_run_identity [OF r wr] m f show ?thesis by simp
qed

section \<open>Faults before the write\<close>

text \<open>
  Claim C9. If the file cannot be read, each run ends with \<open>ReadError\<close> and the world
  (the file and the output) is as before. Any run that ends with an error leaves the world
  as it was. A run that changes the world has written the text with all rules of its
  script applied, in their order.
\<close>

theorem fault_before_write_keeps_file:
  "(main_js w = None \<longrightarrow>
      update_medical w = (Inl ReadError, w) \<and> update_forvia_integration w = (Inl ReadError, w))
   \<and> (fst (update_medical w) = Inl e \<longrightarrow> snd (update_medical w) = w)
   \<and> (fst (update_forvia_integration w) = Inl e \<longrightarrow> snd (update_forvia_integration w) = w)
   \<and> (snd (update_medical w) \<noteq> w \<longrightarrow>
        (\<exists>content. main_js w = Some content \<and>
           main_js (snd (update_medical w)) = Some (apply_rules medical_rules content)))
   \<and> (snd (update_forvia_integration w) \<noteq> w \<longrightarrow>
        (\<exists>content. main_js w = Some content \<and>
           main_js (snd (update_forvia_integration w)) = Some (apply_rules forvia_rules content)))"
  by (auto simp: update_medical_def update_forvia_integration_def run_def Let_def
        medical_transform_fold forvia_transform_fold split: option.splits if_splits)

theorem fault_before_write_keeps_file_witness:
  "update_medical \<lparr>main_js = None, writable = True, stdout = []\<rparr> =
     (Inl ReadError, \<lparr>main_js = None, writable = True, stdout = []\<rparr>)
   \<and> update_forvia_integration \<lparr>main_js = None, writable = True, stdout = []\<rparr> =
     (Inl ReadError, \<lparr>main_js = None, writable = True, stdout = []\<rparr>)
   \<and> snd (update_medical \<lparr>main_js = Some (str ''a b''), writable = False, stdout = []\<rparr>) =
       \<lparr>main_js = Some (str ''a b''), writable = False, stdout = []\<rparr>
   \<and> snd (update_forvia_integration \<lparr>main_js = Some (str ''a b''), writable = False, stdout = []\<rparr>) =
       \<lparr>main_js = Some (str ''a b''), writable = False, stdout = []\<rparr>
   \<and> main_js (snd (update_medical \<lparr>main_js = Some (str ''a b''), writable = True, stdout = []\<rparr>)) =
       Some (apply_rules medical_rules (str ''a b''))
   \<and> main_js (snd (update_forvia_integration \<lparr>main_js = Some (str ''a b''), writable = True, stdout = []\<rparr>)) =
       Some (apply_rules forvia_rules (str ''a b''))"
proof -
  let ?n = "\<lparr>main_js = None, writable = True, stdout = []\<rparr>"
  let ?r = "\<lparr>main_js = Some (str ''a b''), writable = False, stdout = []\<rparr>"
  let ?k = "\<lparr>main_js = Some (str ''a b''), writable = True, stdout = []\<rparr>"
  have 1: "main_js ?n = None" by simp
  have 2: "fst (update_medical ?r) = Inl WriteError"
    "fst (update_forvia_integration ?r) = Inl WriteError"
    by (simp_all add: update_medical_def update_forvia_integration_def run_def)
  have 3: "snd (update_medical ?k) \<noteq> ?k" "snd (update_forvia_integration ?k) \<noteq> ?k"
    by (simp_all add: update_medical_def update_forvia_integration_def run_def Let_def)
  from fault_before_write_keeps_file [of ?n] 1
  have a: "update_medical ?n = (Inl ReadError, ?n) \<and> update_forvia_integration ?n = (Inl ReadError, ?n)"
    by blast
  from fault_before_write_keeps_file [of ?r WriteError] 2
  have b: "snd (update_medical ?r) = ?r \<and> snd (update_forvia_integration ?r) = ?r"
    by blast
  from fault_before_write_keeps_file [of ?k] 3
  have c: "main_js (snd (update_medical ?k)) = Some (apply_rules medical_rules (str ''a b''))
      \<and> main_js (snd (update_forvia_integration ?k)) = Some (apply_rules forvia_rules (str ''a b''))"
    by (simp del: apply_rule.simps)
  from a b c show ?thesis by blast
qed

lemma lits_str: "lits s = map Lit (str s)"
  by (simp add: lits_def str_def)

lemma re_match_literal:
  "re_match (map Lit L @ p) x = Some n \<Longrightarrow>
     \<exists>y m. x = L @ y \<and> re_match p y = Some m \<and> n = length L + m"
proof (induction L arbitrary: x n)
  case Nil
  then show ?case by simp
next
  case (Cons c L)
  from Cons.prems obtain ds n' where
    x: "x = c # ds" and m: "re_match (map Lit L @ p) ds = Some n'" and n: "n = Suc n'"
    by (auto split: list.splits if_splits)
  from Cons.IH [OF m] obtain y m' where "ds = L @ y" "re_match p y = Some m'" "n' = length L + m'"
    by blast
  with x n show ?case by auto
qed

lemma re_match_literal_eq:
  "re_match (map Lit L @ p) (L @ y) = map_option (\<lambda>m. length L + m) (re_match p y)"
proof (induction L)
  case Nil
  show ?case by (simp add: option.map_ident)
next
  case (Cons c L)
  then show ?case by (simp add: option.map_comp comp_def)
qed

lemma re_match_needs_literal:
  "re_match (q @ map Lit L @ p) x = Some n \<Longrightarrow> sublist L (take n x)"
proof (induction q arbitrary: x n)
  case Nil
  then have "re_match (map Lit L @ p) x = Some n" by simp
  from re_match_literal [OF this] obtain y m where "x = L @ y" "n = length L + m" by blast
  then have "take n x = L @ take m y" by simp
  then show ?case by simp
next
  case (Cons a q)
  show ?case
  proof (cases a)
    case (Lit c)
    with Cons.prems obtain ds n' where
      x: "x = c # ds" and m: "re_match (q @ map Lit L @ p) ds = Some n'" and n: "n = Suc n'"
      by (auto split: list.splits if_splits)
    from Cons.IH [OF m] have "sublist L (take n' ds)" .
    then have "sublist L (c # take n' ds)" by (rule sublist_Cons_right [THEN iffD2, OF disjI2])
    with x n show ?thesis by simp
  next
    case WsPlus
    with Cons.prems
    have "backtrack (re_match (q @ map Lit L @ p)) x (length (takeWhile is_space x)) = Some n"
      by simp
    from backtrack_Some [OF this] obtain i m where
      im: "re_match (q @ map Lit L @ p) (drop i x) = Some m" "n = i + m" by blast
    from Cons.IH [OF im(1)] have "sublist L (take m (drop i x))" .
    then have "sublist L (take i x @ take m (drop i x))" by (simp add: sublist_append)
    then show ?thesis by (simp add: im(2) take_add)
  qed
qed

lemma sublist_take: "sublist u (take n x) \<Longrightarrow> sublist u x"
  using sublist_append [of u "take n x" "drop n x"] by auto

lemma sublist_drop: "sublist u (drop n x) \<Longrightarrow> sublist u x"
  using sublist_append [of u "take n x" "drop n x"] by auto

lemma has_match_needs_literal:
  assumes "has_match (q @ map Lit L @ p) s"
  shows "sublist L s"
proof -
  from assms obtain k n where "re_match (q @ map Lit L @ p) (drop k s) = Some n"
    by (auto simp: has_match_iff)
  from re_match_needs_literal [OF this] have "sublist L (take n (drop k s))" .
  then show ?thesis by (blast intro: sublist_take sublist_drop)
qed

lemma has_match_needs_char:
  assumes "has_match p s" "Lit c \<in> set p"
  shows "c \<in> set s"
proof -
  from assms(2) obtain q p' where "p = q @ Lit c # p'" by (auto dest: split_list)
  then have "p = q @ map Lit [c] @ p'" by simp
  with assms(1) have "sublist [c] s" using has_match_needs_literal by blast
  then show ?thesis by (auto simp: sublist_def)
qed

lemma no_match_without_char: "Lit c \<in> set p \<Longrightarrow> c \<notin> set s \<Longrightarrow> \<not> has_match p s"
  using has_match_needs_char by blast

lemma re_sub_without_char: "Lit c \<in> set p \<Longrightarrow> c \<notin> set s \<Longrightarrow> re_sub p r s = s"
  by (simp add: no_match_without_char re_sub_no_match)

lemma sensor_block_match: "re_match medical_pattern2 (sensor_block @ y) = Some 102"
  by (simp add: medical_pattern2_def sensor_block_def str_def lits_def is_space_def)

lemma sensor_block_length: "length sensor_block = 102"
  by (simp add: sensor_block_def str_def)

lemma medical_rule2_on_sensor_block:
  "re_sub medical_pattern2 medical_replacement2 (sensor_block @ y) =
     sensor_block @ medical_modal_block @ re_sub medical_pattern2 medical_replacement2 y"
  using re_sub_hit [OF sensor_block_match [of y], where r = medical_replacement2]
  by (simp add: sensor_block_length medical_modal_block_def medical_replacement2_def)

lemma medical_pattern_chars:
  "Lit 124 \<in> set medical_pattern1" "Lit 83 \<in> set medical_pattern2"
  "Lit 47 \<in> set medical_pattern3" "Lit 47 \<in> set medical_pattern4"
  by (simp_all add: medical_pattern1_def medical_pattern2_def medical_pattern3_def
        medical_pattern4_def lits_def)

lemma sensor_block_chars: "124 \<notin> set sensor_block" "47 \<notin> set sensor_block"
  by (simp_all add: sensor_block_def str_def)

lemma medical_modal_block_chars:
  "124 \<notin> set medical_modal_block" "47 \<notin> set medical_modal_block"
  "83 \<notin> set medical_modal_block"
  by (simp_all add: medical_modal_block_def medical_replacement2_def str_def)

lemma medical_modal_block_not_empty: "medical_modal_block \<noteq> []"
  by (simp add: medical_modal_block_def medical_replacement2_def)

lemma medical_transform_sensor_block:
  "medical_transform sensor_block = sensor_block @ medical_modal_block"
proof -
  have 1: "re_sub medical_pattern1 medical_replacement1 sensor_block = sensor_block"
    by (rule re_sub_without_char [OF medical_pattern_chars(1) sensor_block_chars(1)])
  have 2: "re_sub medical_pattern2 medical_replacement2 sensor_block =
      sensor_block @ medical_modal_block"
    using medical_rule2_on_sensor_block [of "[]"] by (simp add: medical_pattern2_def)
  have 3: "re_sub medical_pattern3 medical_replacement3 (sensor_block @ medical_modal_block) =
      sensor_block @ medical_modal_block"
    by (rule re_sub_without_char [OF medical_pattern_chars(3)])
      (simp add: sensor_block_chars medical_modal_block_chars)
  have 4: "re_sub medical_pattern4 medical_replacement4 (sensor_block @ medical_modal_block) =
      sensor_block @ medical_modal_block"
    by (rule re_sub_without_char [OF medical_pattern_chars(4)])
      (simp add: sensor_block_chars medical_modal_block_chars)
  show ?thesis by (simp add: medical_transform_def 1 2 3 4)
qed

lemma medical_transform_twice:
  "medical_transform (sensor_block @ medical_modal_block) =
     sensor_block @ medical_modal_block @ medical_modal_block"
proof -
  let ?s = "sensor_block @ medical_modal_block"
  let ?t = "sensor_block @ medical_modal_block @ medical_modal_block"
  have 1: "re_sub medical_pattern1 medical_replacement1 ?s = ?s"
    by (rule re_sub_without_char [OF medical_pattern_chars(1)])
      (simp add: sensor_block_chars medical_modal_block_chars)
  have "re_sub medical_pattern2 medical_replacement2 medical_modal_block = medical_modal_block"
    by (rule re_sub_without_char [OF medical_pattern_chars(2) medical_modal_block_chars(3)])
  then have 2: "re_sub medical_pattern2 medical_replacement2 ?s = ?t"
    by (simp add: medical_rule2_on_sensor_block)
  have 3: "re_sub medical_pattern3 medical_replacement3 ?t = ?t"
    by (rule re_sub_without_char [OF medical_pattern_chars(3)])
      (simp add: sensor_block_chars medical_modal_block_chars)
  have 4: "re_sub medical_pattern4 medical_replacement4 ?t = ?t"
    by (rule re_sub_without_char [OF medical_pattern_chars(4)])
      (simp add: sensor_block_chars medical_modal_block_chars)
  show ?thesis by (simp add: medical_transform_def 1 2 3 4)
qed

text \<open>
  Claim C6. The rule sequence of \<^verbatim>\<open>update_medical.py\<close> is not idempotent: on a buffer
  with a sensorSensei modal call the second run inserts the medical modal block a second
  time.
\<close>

theorem medical_transform_not_idempotent:
  "\<exists>content. medical_transform (medical_transform content) \<noteq> medical_transform content
     \<and> medical_transform (medical_transform content) =
         medical_transform content @ medical_modal_block"
proof (intro exI conjI)
  show "medical_transform (medical_transform sensor_block) \<noteq> medical_transform sensor_block"
    by (simp add: medical_transform_sensor_block medical_transform_twice
          medical_modal_block_not_empty)
  show "medical_transform (medical_transform sensor_block) =
      medical_transform sensor_block @ medical_modal_block"
    by (simp add: medical_transform_sensor_block medical_transform_twice)
qed

lemma re_sub_Nil: "p \<noteq> [] \<Longrightarrow> re_sub p r [] = []"
proof -
  assume "p \<noteq> []"
  then have "re_match p [] = None"
    using re_match_pos [of p "[]"] re_match_le [of p "[]"] by (cases "re_match p []") auto
  then show ?thesis by simp
qed

lemma re_sub_literal_hit:
  assumes "L \<noteq> []"
  shows "re_sub (map Lit L) r (L @ y) = expand r L @ re_sub (map Lit L) r y"
proof -
  have "re_match (map Lit L) (L @ y) = Some (length L)"
    using re_match_literal_eq [of L "[]" y] by simp
  from re_sub_hit [OF this, where r = r] assms show ?thesis by simp
qed

lemma re_sub_skip_chars:
  "a \<notin> set pre \<Longrightarrow> re_sub (Lit a # p) r (pre @ x) = pre @ re_sub (Lit a # p) r x"
  by (induction pre) auto

section \<open>Order of the rules\<close>

lemma medical_rule1_on_condition_line:
  "apply_rule (medical_pattern1, medical_replacement1) condition_line =
     str ''if ('' @ medical_condition @ str '')''"
proof -
  have "re_sub (map Lit condition_line) medical_replacement1 (condition_line @ []) =
      expand medical_replacement1 condition_line @ re_sub (map Lit condition_line) medical_replacement1 []"
    by (rule re_sub_literal_hit) (simp add: condition_line_def str_def)
  moreover have "medical_pattern1 = map Lit condition_line"
    by (simp add: medical_pattern1_def condition_line_def lits_str)
  moreover have "re_sub (map Lit condition_line) medical_replacement1 [] = []"
    by (rule re_sub_Nil) (simp add: condition_line_def str_def)
  ultimately have "apply_rule (medical_pattern1, medical_replacement1) condition_line =
      expand medical_replacement1 condition_line" by simp
  also have "\<dots> = str ''if ('' @ medical_condition @ str '')''"
    by (simp add: medical_replacement1_def medical_condition_def str_def)
  finally show ?thesis .
qed

lemma pattern1_literal: "pattern1 = map Lit medical_condition"
  by (simp add: pattern1_def medical_condition_def lits_str)

lemma medical_condition_head: "medical_condition = 111 # tl medical_condition"
  by (simp add: medical_condition_def str_def)

lemma forvia_rule1_after_medical_rule1:
  "apply_rule (pattern1, replacement1) (str ''if ('' @ medical_condition @ str '')'') =
     str ''if ('' @ expand replacement1 medical_condition @ str '')''"
proof -
  let ?p = "Lit 111 # map Lit (tl medical_condition)"
  have p: "pattern1 = ?p" by (subst pattern1_literal, subst medical_condition_head) simp
  have ne: "medical_condition \<noteq> []" by (subst medical_condition_head) simp
  have "re_sub ?p replacement1 (str ''if ('' @ medical_condition @ str '')'') =
      str ''if ('' @ re_sub ?p replacement1 (medical_condition @ str '')'')"
    by (rule re_sub_skip_chars) (simp add: str_def)
  also have "re_sub ?p replacement1 (medical_condition @ str '')'') =
      expand replacement1 medical_condition @ re_sub ?p replacement1 (str '')'')"
    using re_sub_literal_hit [OF ne, of replacement1 "str '')''"] p pattern1_literal by simp
  also have "re_sub ?p replacement1 (str '')'') = str '')''"
    using re_sub_skip_chars [of 111 "str '')''" "map Lit (tl medical_condition)" replacement1 "[]"]
    by (simp add: str_def)
  finally show ?thesis by (simp add: p)
qed

lemma forvia_rule1_on_condition_line:
  "apply_rule (pattern1, replacement1) condition_line = condition_line"
proof -
  have "Lit 109 \<in> set pattern1" by (simp add: pattern1_def lits_def)
  moreover have "109 \<notin> set condition_line" by (simp add: condition_line_def str_def)
  ultimately show ?thesis by (simp add: re_sub_without_char)
qed

lemma replacement1_longer: "expand replacement1 medical_condition \<noteq> medical_condition"
  by (simp add: replacement1_def medical_condition_def str_def)

text \<open>
  Claim C7. Each run is the left-to-right fold of its substitutions over the buffer, so
  each rule works on the output of the rules before it. The order matters: rule 1 of
  \<^verbatim>\<open>update_medical.py\<close> and rule 1 of \<^verbatim>\<open>update_forvia.py\<close>, which both touch the
  condition line, give different buffers in the two orders.
\<close>

theorem rules_fold_in_order_not_commutative:
  "medical_transform c = foldl (\<lambda>b r. apply_rule r b) c medical_rules
   \<and> forvia_transform c = foldl (\<lambda>b r. apply_rule r b) c forvia_rules
   \<and> (\<exists>b. apply_rules [(medical_pattern1, medical_replacement1), (pattern1, replacement1)] b \<noteq>
            apply_rules [(pattern1, replacement1), (medical_pattern1, medical_replacement1)] b)"
proof (intro conjI exI)
  show "medical_transform c = foldl (\<lambda>b r. apply_rule r b) c medical_rules"
    using medical_transform_fold by (simp add: apply_rules_def)
  show "forvia_transform c = foldl (\<lambda>b r. apply_rule r b) c forvia_rules"
    using forvia_transform_fold by (simp add: apply_rules_def)
  have "apply_rules [(medical_pattern1, medical_replacement1), (pattern1, replacement1)] condition_line =
      str ''if ('' @ expand replacement1 medical_condition @ str '')''"
    using medical_rule1_on_condition_line forvia_rule1_after_medical_rule1
    by (simp add: apply_rules_def del: apply_rule.simps)
  moreover have "apply_rules [(pattern1, replacement1), (medical_pattern1, medical_replacement1)] condition_line =
      str ''if ('' @ medical_condition @ str '')''"
    using medical_rule1_on_condition_line forvia_rule1_on_condition_line
    by (simp add: apply_rules_def del: apply_rule.simps)
  ultimately show "apply_rules [(medical_pattern1, medical_replacement1), (pattern1, replacement1)] condition_line \<noteq>
      apply_rules [(pattern1, replacement1), (medical_pattern1, medical_replacement1)] condition_line"
    using replacement1_longer by simp
qed

section \<open>Every match is replaced\<close>

lemma expand_concat:
  "expand r m = concat (map (\<lambda>part. case part of Txt t \<Rightarrow> t | Group1 \<Rightarrow> m) r)"
  by (induction r m rule: expand.induct) simp_all

lemma re_sub_unmatched: "unmatched p u y \<Longrightarrow> re_sub p r (u @ y) = u @ re_sub p r y"
  by (induction u) auto

lemma find_all_unmatched: "unmatched p u y \<Longrightarrow> find_all p (u @ y) = find_all p y"
  by (induction u) auto

lemma find_all_hit:
  assumes "re_match p x = Some n" "0 < n"
  shows "find_all p x = take n x # find_all p (drop n x)"
proof -
  from assms re_match_le [OF assms(1)] obtain c cs where x: "x = c # cs" by (cases x) auto
  from assms(2) obtain n' where n: "n = Suc n'" by (cases n) auto
  show ?thesis using assms(1) unfolding x n by simp
qed

lemma find_all_Nil: "p \<noteq> [] \<Longrightarrow> find_all p [] = []"
proof -
  assume "p \<noteq> []"
  then have "re_match p [] = None"
    using re_match_pos [of p "[]"] re_match_le [of p "[]"] by (cases "re_match p []") auto
  then show ?thesis by simp
qed

lemma re_sub_segmented:
  "p \<noteq> [] \<Longrightarrow> segmented p segs \<Longrightarrow>
     re_sub p r (source segs) =
       concat (map (\<lambda>seg. case seg of
                      Keep u \<Rightarrow> u
                    | Hit m \<Rightarrow> concat (map (\<lambda>part. case part of Txt t \<Rightarrow> t | Group1 \<Rightarrow> m) r))
                   segs)"
proof (induction segs rule: source.induct)
  case 1
  then have "re_sub p r [] = []" by (intro re_sub_Nil)
  then show ?case by (simp del: re_sub.simps)
next
  case (2 u segs)
  then show ?case by (simp add: re_sub_unmatched)
next
  case (3 m segs)
  then have m: "re_match p (m @ source segs) = Some (length m)" "0 < length m" by simp_all
  from re_sub_hit [OF m, where r = r] 3 show ?case by (simp add: expand_concat)
qed

lemma find_all_segmented:
  "p \<noteq> [] \<Longrightarrow> segmented p segs \<Longrightarrow>
     find_all p (source segs) =
       concat (map (\<lambda>seg. case seg of Keep u \<Rightarrow> [] | Hit m \<Rightarrow> [m]) segs)"
proof (induction segs rule: source.induct)
  case 1
  then have "find_all p [] = []" by (intro find_all_Nil)
  then show ?case by (simp del: find_all.simps)
next
  case (2 u segs)
  then show ?case by (simp add: find_all_unmatched)
next
  case (3 m segs)
  then have m: "re_match p (m @ source segs) = Some (length m)" "0 < length m" by simp_all
  from find_all_hit [OF m] 3 show ?case by simp
qed

lemma buffer_segmented: "p \<noteq> [] \<Longrightarrow> \<exists>segs. segmented p segs \<and> source segs = s"
proof (induction p s rule: find_all.induct)
  case (1 p)
  have "segmented p [] \<and> source [] = []" by simp
  then show ?case by blast
next
  case (2 p c cs)
  show ?case
  proof (cases "re_match p (c # cs)")
    case None
    with 2 obtain segs where "segmented p segs" "source segs = cs" by blast
    with None have "segmented p (Keep [c] # segs) \<and> source (Keep [c] # segs) = c # cs"
      by simp
    then show ?thesis by blast
  next
    case (Some k)
    from re_match_pos [OF "2.prems" Some] obtain n where k: "k = Suc n" by (cases k) auto
    with Some 2 obtain segs where segs: "segmented p segs" "source segs = drop n cs" by blast
    from re_match_le [OF Some] k have n: "n \<le> length cs" by simp
    let ?m = "take (Suc n) (c # cs)"
    from n segs Some k
    have "segmented p (Hit ?m # segs) \<and> source (Hit ?m # segs) = c # cs" by simp
    then show ?thesis by blast
  qed
qed

text \<open>
  Claim C8. Every buffer is a sequence of matches of the pattern (the \<open>Hit\<close> segments)
  and of text in which no match starts (the \<open>Keep\<close> segments). The N matches of such
  a sequence are the matches that the scan finds in the buffer, and one application of
  the rule replaces each of them by the text of the replacement, in which the match stands
  for \<^verbatim>\<open>\1\<close>, and keeps the text between them.
\<close>

theorem rule_replaces_every_match:
  assumes "fst rule \<noteq> []" "segmented (fst rule) segs"
  shows "apply_rule rule (source segs) =
           concat (map (\<lambda>seg. case seg of
                          Keep u \<Rightarrow> u
                        | Hit m \<Rightarrow> concat (map (\<lambda>part. case part of Txt t \<Rightarrow> t | Group1 \<Rightarrow> m)
                                                (snd rule)))
                       segs)
       \<and> find_all (fst rule) (source segs) =
           concat (map (\<lambda>seg. case seg of Keep u \<Rightarrow> [] | Hit m \<Rightarrow> [m]) segs)
       \<and> (\<exists>segs'. segmented (fst rule) segs' \<and> source segs' = content)"
proof -
  have "apply_rule rule (source segs) = re_sub (fst rule) (snd rule) (source segs)"
    by (cases rule) simp
  also note re_sub_segmented [OF assms, of "snd rule"]
  finally show ?thesis
    using find_all_segmented [OF assms] buffer_segmented [OF assms(1), of content] by blast
qed

lemma camera_comment_pattern: "medical_pattern4 = map Lit camera_comment"
  by (simp add: medical_pattern4_def camera_comment_def lits_str)

lemma camera_comment_head: "camera_comment = 47 # tl camera_comment"
  by (simp add: camera_comment_def str_def)

theorem rule_replaces_every_match_witness:
  "apply_rule (medical_pattern4, medical_replacement4)
     (str ''// Handle objects that don't need camera movement (trashTruck, convoyeur, sensorSensei); // Handle objects that don't need camera movement (trashTruck, convoyeur, sensorSensei)'') =
   str ''// Handle objects that don't need camera movement (trashTruck, convoyeur, sensorSensei, medical); // Handle objects that don't need camera movement (trashTruck, convoyeur, sensorSensei, medical)''
   \<and> find_all medical_pattern4
       (str ''// Handle objects that don't need camera movement (trashTruck, convoyeur, sensorSensei); // Handle objects that don't need camera movement (trashTruck, convoyeur, sensorSensei)'') =
     [camera_comment, camera_comment]"
proof -
  let ?segs = "[Hit camera_comment, Keep (str ''; ''), Hit camera_comment]"
  have ne: "camera_comment \<noteq> []" by (subst camera_comment_head) simp
  have m: "re_match (map Lit camera_comment) (camera_comment @ y) = Some (length camera_comment)" for y
    using re_match_literal_eq [of camera_comment "[]" y] by simp
  have u: "re_match (map Lit camera_comment) (59 # 32 # camera_comment) = None"
    "re_match (map Lit camera_comment) (32 # camera_comment) = None"
    by (subst camera_comment_head, simp)+
  have 1: "fst (medical_pattern4, medical_replacement4) \<noteq> []"
    using ne by (simp add: camera_comment_pattern)
  have 2: "segmented (fst (medical_pattern4, medical_replacement4)) ?segs"
    using ne m [of "[]"] m u by (simp add: camera_comment_pattern str_def)
  have 3: "source ?segs = str ''// Handle objects that don't need camera movement (trashTruck, convoyeur, sensorSensei); // Handle objects that don't need camera movement (trashTruck, convoyeur, sensorSensei)''"
    by (simp add: camera_comment_def str_def)
  from rule_replaces_every_match [OF 1 2] show ?thesis
    unfolding 3 by (simp add: medical_replacement4_def str_def)
qed

section \<open>Squeezed text\<close>

lemma squeeze_from_append:
  "squeeze_from b (u @ v) =
     squeeze_from b u @ squeeze_from (if u = [] then b else is_space (last u)) v"
  by (induction u arbitrary: b) auto

lemma squeeze_from_True:
  "squeeze_from True v = (if v \<noteq> [] \<and> is_space (hd v) then tl (squeeze v) else squeeze v)"
  by (cases v) (auto simp: squeeze_def)

lemma squeeze_from_cases: "squeeze_from b v = squeeze v \<or> squeeze_from b v = tl (squeeze v)"
  by (cases b) (auto simp: squeeze_from_True squeeze_def)

lemma squeeze_from_no_space:
  "v = [] \<or> \<not> is_space (hd v) \<Longrightarrow> squeeze_from b v = squeeze v"
  by (cases v) (auto simp: squeeze_def)

lemma squeeze_eq_Nil [simp]: "squeeze v = [] \<longleftrightarrow> v = []"
  by (cases v) (auto simp: squeeze_def)

lemma squeeze_from_False_eq_Nil [simp]: "squeeze_from False v = [] \<longleftrightarrow> v = []"
  by (cases v) auto

lemma suffix_tl: "suffix (tl xs) xs"
  by (cases xs) (auto simp: suffix_def)

lemma tl_squeeze_suffix: "suffix (tl (squeeze v)) (squeeze_from b v)"
  using squeeze_from_cases [of b v] suffix_tl [of "squeeze v"] by auto

lemma squeeze_from_suffix: "suffix (squeeze_from b v) (squeeze v)"
  using squeeze_from_cases [of b v] suffix_tl [of "squeeze v"] by auto

lemma squeeze_append:
  "squeeze (u @ v) = squeeze u @ squeeze_from (u \<noteq> [] \<and> is_space (last u)) v"
  by (simp add: squeeze_def squeeze_from_append)

lemma squeeze_append_no_space:
  "u \<noteq> [] \<Longrightarrow> \<not> is_space (last u) \<Longrightarrow> squeeze (u @ v) = squeeze u @ squeeze v"
  by (simp add: squeeze_def squeeze_from_append)

lemma sublist_tl_squeeze:
  assumes "sublist z t"
  shows "sublist (tl (squeeze z)) (squeeze t)"
proof -
  from assms obtain a b where t: "t = a @ z @ b" by (auto simp: sublist_def)
  obtain b1 b2 where
    "squeeze t = squeeze a @ squeeze_from b1 z @ squeeze_from b2 b"
    by (simp add: t squeeze_def squeeze_from_append)
  moreover obtain w where "squeeze_from b1 z = w @ tl (squeeze z)"
    using tl_squeeze_suffix [of z b1] by (auto simp: suffix_def)
  ultimately have "squeeze t = (squeeze a @ w) @ tl (squeeze z) @ squeeze_from b2 b" by simp
  then show ?thesis unfolding sublist_def by blast
qed

lemma overlap_iff: "overlap a b \<longleftrightarrow> (\<exists>u. u \<noteq> [] \<and> suffix u a \<and> prefix u b)"
proof (induction a)
  case Nil
  then show ?case by simp
next
  case (Cons c a)
  show ?case
  proof
    assume "overlap (c # a) b"
    then consider "prefix (c # a) b" | "overlap a b" by auto
    then show "\<exists>u. u \<noteq> [] \<and> suffix u (c # a) \<and> prefix u b"
    proof cases
      case 1
      then have "c # a \<noteq> [] \<and> suffix (c # a) (c # a) \<and> prefix (c # a) b" by simp
      then show ?thesis by blast
    next
      case 2
      with Cons.IH obtain u where "u \<noteq> []" "suffix u a" "prefix u b" by blast
      then have "u \<noteq> [] \<and> suffix u (c # a) \<and> prefix u b" by (simp add: suffix_ConsI)
      then show ?thesis by blast
    qed
  next
    assume "\<exists>u. u \<noteq> [] \<and> suffix u (c # a) \<and> prefix u b"
    then obtain u where u: "u \<noteq> []" "suffix u (c # a)" "prefix u b" by blast
    from u(2) have "u = c # a \<or> suffix u a" by (auto simp: suffix_Cons)
    with u Cons.IH show "overlap (c # a) b" by auto
  qed
qed


section \<open>Matches of separated patterns\<close>

lemma re_match_Lit_head:
  "re_match (Lit c # p) x = Some n \<Longrightarrow> x \<noteq> [] \<and> hd x = c"
  by (cases x) (auto split: if_splits)

lemma separated_Cons: "separated (a # b # p) \<Longrightarrow> separated (b # p)"
  by simp

lemma separated_after_space:
  "separated (a # b # p) \<Longrightarrow> space_atom a \<Longrightarrow> \<exists>c. b = Lit c \<and> \<not> is_space c"
  by (cases b) auto

lemma take_spaces:
  assumes "i \<le> length (takeWhile is_space x)"
  shows "\<forall>c\<in>set (take i x). is_space c"
proof -
  have "take i x = take i (takeWhile is_space x @ dropWhile is_space x)" by simp
  also have "\<dots> = take i (takeWhile is_space x)"
    using assms by (simp del: takeWhile_dropWhile_id)
  finally have "take i x = take i (takeWhile is_space x)" .
  then show ?thesis by (auto dest!: in_set_takeD set_takeWhileD)
qed

lemma squeeze_from_spaces:
  "\<forall>c\<in>set w. is_space c \<Longrightarrow> squeeze_from b w = (if b \<or> w = [] then [] else [32])"
  by (induction w arbitrary: b) auto

lemma squeeze_spaces_append:
  "w \<noteq> [] \<Longrightarrow> \<forall>c\<in>set w. is_space c \<Longrightarrow> squeeze_from False (w @ u) = 32 # squeeze_from True u"
  by (simp add: squeeze_from_append squeeze_from_spaces)


lemma separated_match:
  "separated p \<Longrightarrow> re_match p x = Some n \<Longrightarrow>
     0 < n \<and> squeeze (take n x) = outline p \<and> \<not> is_space (last (take n x))"
proof (induction p arbitrary: x n rule: separated.induct)
  case 1
  then show ?case by simp
next
  case (2 a)
  then obtain c where a: "a = Lit c" "\<not> is_space c" by (cases a) auto
  with 2 obtain ds where "x = c # ds" "n = Suc 0"
    by (auto split: list.splits if_splits)
  with a show ?case by (simp add: squeeze_def outline_def)
next
  case (3 a b p)
  then have sep: "separated (b # p)" by simp
  show ?case
  proof (cases a)
    case (Lit c)
    with 3 obtain ds m where x: "x = c # ds" and m: "re_match (b # p) ds = Some m" and n: "n = Suc m"
      by (auto split: list.splits if_splits)
    from "3.IH" [OF sep m] have ih: "0 < m" "squeeze (take m ds) = outline (b # p)"
      "\<not> is_space (last (take m ds))" by simp_all
    from ih(1) re_match_le [OF m] have ne: "take m ds \<noteq> []" by auto
    have "squeeze_from (is_space c) (take m ds) = squeeze (take m ds)"
    proof (cases "is_space c")
      case True
      with "3.prems"(1) Lit obtain c' where b: "b = Lit c'" "\<not> is_space c'"
        using separated_after_space [of a b p] by auto
      with m have "hd ds = c'" "ds \<noteq> []" using re_match_Lit_head by auto
      with ne b have "\<not> is_space (hd (take m ds))" by (cases ds; cases m) auto
      then show ?thesis by (simp add: squeeze_from_no_space)
    next
      case False
      then show ?thesis by (simp add: squeeze_def)
    qed
    then have "squeeze_from (is_space c) (take m ds) = outline (b # p)"
      using ih(2) by simp
    then have "squeeze (take n x) = outline (a # b # p)"
      by (cases "is_space c") (simp_all add: x n Lit squeeze_def outline_def)
    with ih ne show ?thesis by (simp add: x n)
  next
    case WsPlus
    with "3.prems" have
      "backtrack (re_match (b # p)) x (length (takeWhile is_space x)) = Some n" by simp
    from backtrack_Some [OF this] obtain i m where
      im: "0 < i" "i \<le> length (takeWhile is_space x)" "re_match (b # p) (drop i x) = Some m"
        "n = i + m" by blast
    from "3.IH" [OF sep im(3)] have ih: "0 < m" "squeeze (take m (drop i x)) = outline (b # p)"
      "\<not> is_space (last (take m (drop i x)))" by simp_all
    from ih(1) re_match_le [OF im(3)] have ne: "take m (drop i x) \<noteq> []" by auto
    then have ix: "i < length x" by auto
    from "3.prems"(1) WsPlus obtain c' where b: "b = Lit c'" "\<not> is_space c'"
      using separated_after_space [of a b p] by auto
    with im(3) have "hd (drop i x) = c'" "drop i x \<noteq> []" using re_match_Lit_head by auto
    with ne b ih(1) have "\<not> is_space (hd (take m (drop i x)))"
      by (cases "drop i x"; cases m) auto
    then have sq: "squeeze_from True (take m (drop i x)) = outline (b # p)"
      using ih(2) by (simp add: squeeze_from_no_space)
    have sp: "\<forall>c\<in>set (take i x). is_space c" by (rule take_spaces [OF im(2)])
    have w: "take i x \<noteq> []" using im(1) ix by auto
    have tk: "take n x = take i x @ take m (drop i x)" by (simp add: im(4) take_add)
    have "squeeze (take n x) = 32 # squeeze_from True (take m (drop i x))"
      unfolding tk squeeze_def by (rule squeeze_spaces_append [OF w sp])
    with sq have "squeeze (take n x) = outline (a # b # p)" by (simp add: WsPlus outline_def)
    moreover have "last (take n x) = last (take m (drop i x))" using ne by (simp add: tk)
    ultimately show ?thesis using ih(3) im(1,4) by simp
  qed
qed


section \<open>Text that a rule leaves in place\<close>

text \<open>
  The rules of both scripts insert: the replacement of a match is the match with a text
  \<open>ins\<close> put \<open>d\<close> characters before its end. A text \<open>t\<close> of the buffer is still there
  after such a rule when no insertion point can lie inside it.
\<close>

lemma prefix_kept:
  assumes ins: "\<And>x n. re_match p x = Some n \<Longrightarrow>
      d < n \<and> expand r (take n x) = take (n - d) x @ ins @ drop (n - d) (take n x)"
  shows "(\<And>x n. re_match p x = Some n \<Longrightarrow> \<not> sublist (take (n - d) x) u) \<Longrightarrow>
    prefix u s \<Longrightarrow> prefix u (re_sub p r s)"
proof (induction s arbitrary: u rule: length_induct)
  case (1 s)
  show ?case
  proof (cases "re_match p s")
    case None
    show ?thesis
    proof (cases s)
      case Nil
      with "1.prems"(2) show ?thesis by simp
    next
      case (Cons c cs)
      with None have sub: "re_sub p r s = c # re_sub p r cs" by simp
      show ?thesis
      proof (cases u)
        case Nil
        then show ?thesis by simp
      next
        case (Cons a u')
        with "1.prems"(2) \<open>s = c # cs\<close> have a: "a = c" and pre: "prefix u' cs" by simp_all
        have "\<not> sublist (take (n - d) x) u'" if "re_match p x = Some n" for x n
          using "1.prems"(1) [OF that] Cons by (auto simp: sublist_Cons_right)
        with "1.IH" pre \<open>s = c # cs\<close> have "prefix u' (re_sub p r cs)" by simp
        with sub Cons a show ?thesis by simp
      qed
    qed
  next
    case (Some n)
    from ins [OF Some] have d: "d < n"
      and ex: "expand r (take n s) = take (n - d) s @ ins @ drop (n - d) (take n s)" by simp_all
    from d have "0 < n" by simp
    from re_sub_hit [OF Some this, of r] ex
    have out: "re_sub p r s =
        take (n - d) s @ (ins @ drop (n - d) (take n s) @ re_sub p r (drop n s))" by simp
    have "prefix (take (n - d) s) s" by (rule take_is_prefix)
    with "1.prems"(2) consider "prefix u (take (n - d) s)" | "prefix (take (n - d) s) u"
      using prefix_same_cases by blast
    then show ?thesis
    proof cases
      case 1
      then show ?thesis unfolding out by (rule prefix_prefix)
    next
      case 2
      then have "sublist (take (n - d) s) u" by (rule prefix_imp_sublist)
      with "1.prems"(1) [OF Some] show ?thesis by simp
    qed
  qed
qed

lemma sublist_appL: "sublist t y \<Longrightarrow> sublist t (x @ y)"
  by (simp add: sublist_append)

lemma sublist_appR: "sublist t x \<Longrightarrow> sublist t (x @ y)"
  by (simp add: sublist_append)

lemma sublist_straddle: "suffix t1 y \<Longrightarrow> prefix t2 z \<Longrightarrow> sublist (t1 @ t2) (y @ z)"
proof -
  assume "suffix t1 y" "prefix t2 z"
  then obtain a b where "y = a @ t1" "z = t2 @ b" by (auto simp: suffix_def prefix_def)
  then have "y @ z = a @ (t1 @ t2) @ b" by simp
  then show ?thesis unfolding sublist_def by blast
qed

lemma sublist_kept:
  assumes ins: "\<And>x n. re_match p x = Some n \<Longrightarrow>
      d < n \<and> expand r (take n x) = take (n - d) x @ ins @ drop (n - d) (take n x)"
    and inside: "\<And>x n. re_match p x = Some n \<Longrightarrow> \<not> sublist (take (n - d) x) t"
    and border: "\<And>x n t1 t2. re_match p x = Some n \<Longrightarrow> t = t1 @ t2 \<Longrightarrow> t1 \<noteq> [] \<Longrightarrow>
      t2 \<noteq> [] \<Longrightarrow> \<not> suffix t1 (take (n - d) x)"
  shows "sublist t s \<Longrightarrow> sublist t (re_sub p r s)"
proof (induction s rule: length_induct)
  case (1 s)
  have pk: "prefix u (re_sub p r y)" if "sublist u t" "prefix u y" for u y
  proof (rule prefix_kept [where d = d and ins = ins])
    show "d < n \<and> expand r (take n x) = take (n - d) x @ ins @ drop (n - d) (take n x)"
      if "re_match p x = Some n" for x n using ins [OF that] .
    show "\<not> sublist (take (n - d) x) u" if m: "re_match p x = Some n" for x n
    proof
      assume "sublist (take (n - d) x) u"
      then have "sublist (take (n - d) x) t"
        using \<open>sublist u t\<close> by (rule sublist_order.order.trans)
      with inside [OF m] show False by simp
    qed
    show "prefix u y" by fact
  qed
  show ?case
  proof (cases "re_match p s")
    case None
    show ?thesis
    proof (cases s)
      case Nil
      with "1.prems" show ?thesis by simp
    next
      case (Cons c cs)
      with None have sub: "re_sub p r s = c # re_sub p r cs" by simp
      from "1.prems" have "prefix t (c # cs) \<or> sublist t cs"
        unfolding Cons by (rule sublist_Cons_right [THEN iffD1])
      then show ?thesis
      proof
        assume "prefix t (c # cs)"
        then have "prefix t s" by (simp add: Cons)
        with pk [of t s] have "prefix t (re_sub p r s)" by simp
        then show ?thesis by (rule prefix_imp_sublist)
      next
        assume "sublist t cs"
        moreover have "length cs < length s" by (simp add: Cons)
        ultimately have "sublist t (re_sub p r cs)" using "1.IH" by blast
        then have "sublist t ([c] @ re_sub p r cs)" by (rule sublist_appL)
        then show ?thesis by (simp add: sub)
      qed
    qed
  next
    case (Some n)
    let ?z = "take (n - d) s" and ?y = "drop (n - d) (take n s)" and ?rest = "drop n s"
    from ins [OF Some] have d: "d < n"
      and ex: "expand r (take n s) = ?z @ ins @ ?y" by simp_all
    from d have npos: "0 < n" by simp
    from re_sub_hit [OF Some this, of r] ex
    have out: "re_sub p r s = ?z @ ins @ ?y @ re_sub p r ?rest" by simp
    have n: "n \<le> length s" by (rule re_match_le [OF Some])
    have "take (n - d) (take n s) = ?z" by (simp add: min_def)
    then have "?z @ ?y = take n s"
      using append_take_drop_id [of "n - d" "take n s"] by simp
    then have "(?z @ ?y) @ ?rest = s" by simp
    then have s: "?z @ (?y @ ?rest) = s" by (simp only: append_assoc)
    have shorter: "length ?rest < length s" using npos n by simp
    have tail: "sublist t (?y @ re_sub p r ?rest)" if "sublist t (?y @ ?rest)"
    proof -
      from that have "sublist t ?y \<or> sublist t ?rest
        \<or> (\<exists>t1 t2. t = t1 @ t2 \<and> suffix t1 ?y \<and> prefix t2 ?rest)"
        by (rule sublist_append [THEN iffD1])
      then consider "sublist t ?y" | "sublist t ?rest"
        | t1 t2 where "t = t1 @ t2" "suffix t1 ?y" "prefix t2 ?rest"
        by blast
      then show ?thesis
      proof cases
        case 1
        then show ?thesis by (rule sublist_appR)
      next
        case 2
        with "1.IH" shorter have "sublist t (re_sub p r ?rest)" by blast
        then show ?thesis by (rule sublist_appL)
      next
        case 3
        have "sublist t2 t" unfolding 3(1) by (rule sublist_appL) simp
        from pk [OF this 3(3)] have "prefix t2 (re_sub p r ?rest)" .
        with 3(2) show ?thesis unfolding 3(1) by (rule sublist_straddle)
      qed
    qed
    have tail': "sublist t (re_sub p r s)" if "sublist t (?y @ ?rest)"
    proof -
      from tail [OF that] have "sublist t (ins @ (?y @ re_sub p r ?rest))" by (rule sublist_appL)
      then have "sublist t (?z @ (ins @ (?y @ re_sub p r ?rest)))" by (rule sublist_appL)
      then show ?thesis by (simp only: out)
    qed
    have head: "sublist t (re_sub p r s)" if "sublist t ?z"
    proof -
      from that have "sublist t (?z @ (ins @ ?y @ re_sub p r ?rest))" by (rule sublist_appR)
      then show ?thesis by (simp only: out)
    qed
    have "sublist t (?z @ (?y @ ?rest))" by (subst s) (rule "1.prems")
    then have "sublist t ?z \<or> sublist t (?y @ ?rest)
        \<or> (\<exists>t1 t2. t = t1 @ t2 \<and> suffix t1 ?z \<and> prefix t2 (?y @ ?rest))"
      by (rule sublist_append [THEN iffD1])
    then consider "sublist t ?z" | "sublist t (?y @ ?rest)"
      | t1 t2 where "t = t1 @ t2" "suffix t1 ?z" "prefix t2 (?y @ ?rest)"
      by blast
    then show ?thesis
    proof cases
      case 1
      then show ?thesis by (rule head)
    next
      case 2
      then show ?thesis by (rule tail')
    next
      case 3
      show ?thesis
      proof (cases "t1 = []")
        case True
        with 3 have "sublist t (?y @ ?rest)" by simp
        then show ?thesis by (rule tail')
      next
        case t1: False
        show ?thesis
        proof (cases "t2 = []")
          case True
          with 3 have "sublist t ?z" by simp
          then show ?thesis by (rule head)
        next
          case False
          from border [OF Some 3(1) t1 False] 3(2) show ?thesis by simp
        qed
      qed
    qed
  qed
qed

lemma squeeze_from_not_Nil:
  "t \<noteq> [] \<Longrightarrow> \<not> is_space (last t) \<Longrightarrow> squeeze_from b t \<noteq> []"
  by (induction t arbitrary: b) (auto split: if_splits)

lemma no_match_inside:
  assumes sq: "\<And>x n. re_match p x = Some n \<Longrightarrow> squeeze (take (n - d) x) = kz"
    and needle: "sublist w (tl kz)" "\<not> sublist w (squeeze t)"
    and m: "re_match p x = Some n"
  shows "\<not> sublist (take (n - d) x) t"
proof
  assume "sublist (take (n - d) x) t"
  then have "sublist (tl (squeeze (take (n - d) x))) (squeeze t)" by (rule sublist_tl_squeeze)
  then have "sublist (tl kz) (squeeze t)" by (simp add: sq [OF m])
  with needle(1) have "sublist w (squeeze t)" by (rule sublist_order.order.trans)
  with needle(2) show False by simp
qed

lemma no_border:
  assumes sq: "\<And>x n. re_match p x = Some n \<Longrightarrow>
      squeeze (take (n - d) x) = kz \<and> take (n - d) x \<noteq> [] \<and> \<not> is_space (last (take (n - d) x))"
    and ov: "\<not> overlap kz (squeeze t)" "\<not> overlap kz (tl (squeeze t))"
    and m: "re_match p x = Some n"
    and t: "t = t1 @ t2" "t1 \<noteq> []" "t2 \<noteq> []"
  shows "\<not> suffix t1 (take (n - d) x)"
proof
  let ?z = "take (n - d) x"
  assume "suffix t1 ?z"
  then obtain z' where z: "?z = z' @ t1" by (auto simp: suffix_def)
  from sq [OF m] have kz: "squeeze ?z = kz" and last: "\<not> is_space (last ?z)" by simp_all
  from last z t(2) have l1: "\<not> is_space (last t1)" by simp
  let ?u = "squeeze t1"
  have u: "?u \<noteq> []" using t(2) by simp
  have f: "squeeze t = ?u @ squeeze t2"
    unfolding t(1) using t(2) l1 by (rule squeeze_append_no_space)
  then have pre: "prefix ?u (squeeze t)" by simp
  obtain b where k: "kz = squeeze z' @ squeeze_from b t1"
    using kz unfolding z squeeze_def squeeze_from_append by metis
  from squeeze_from_cases [of b t1] show False
  proof
    assume "squeeze_from b t1 = ?u"
    with k have "suffix ?u kz" by (simp add: suffix_def)
    with u pre have "overlap kz (squeeze t)" unfolding overlap_iff by blast
    with ov(1) show False by simp
  next
    assume e: "squeeze_from b t1 = tl ?u"
    with k have "suffix (tl ?u) kz" by (simp add: suffix_def)
    moreover have "tl ?u \<noteq> []" using squeeze_from_not_Nil [OF t(2) l1, of b] e by simp
    moreover have "prefix (tl ?u) (tl (squeeze t))" using f u by (cases ?u) auto
    ultimately have "overlap kz (tl (squeeze t))" unfolding overlap_iff by blast
    with ov(2) show False by simp
  qed
qed

text \<open>
  The two lemmas together: a rule that inserts keeps the text \<open>t\<close> when a part \<open>w\<close> of the
  squeezed match is missing from the squeezed \<open>t\<close> and no end of the squeezed match is a
  beginning of the squeezed \<open>t\<close>.
\<close>

lemma rule_keeps_text:
  assumes ins: "\<And>x n. re_match p x = Some n \<Longrightarrow>
      d < n \<and> expand r (take n x) = take (n - d) x @ ins @ drop (n - d) (take n x)"
    and sq: "\<And>x n. re_match p x = Some n \<Longrightarrow>
      squeeze (take (n - d) x) = kz \<and> take (n - d) x \<noteq> [] \<and> \<not> is_space (last (take (n - d) x))"
    and needle: "sublist w (tl kz)" "\<not> sublist w (squeeze t)"
    and ov: "\<not> overlap kz (squeeze t)" "\<not> overlap kz (tl (squeeze t))"
    and t: "sublist t s"
  shows "sublist t (re_sub p r s)"
proof (rule sublist_kept [where d = d and ins = ins])
  show "d < n \<and> expand r (take n x) = take (n - d) x @ ins @ drop (n - d) (take n x)"
    if "re_match p x = Some n" for x n using ins [OF that] .
  show "\<not> sublist (take (n - d) x) t" if m: "re_match p x = Some n" for x n
  proof (rule no_match_inside [where p = p and kz = kz and w = w])
    show "squeeze (take (n - d) x) = kz" if "re_match p x = Some n" for x n
      using sq [OF that] by simp
  qed (fact needle m)+
  show "\<not> suffix t1 (take (n - d) x)"
    if "re_match p x = Some n" "t = t1 @ t2" "t1 \<noteq> []" "t2 \<noteq> []" for x n t1 t2
    using sq ov that by (rule no_border)
  show "sublist t s" by fact
qed

lemma sublist_single: "sublist [c] xs \<longleftrightarrow> c \<in> set xs"
proof
  assume "sublist [c] xs"
  then show "c \<in> set xs" by (auto simp: sublist_def)
next
  assume "c \<in> set xs"
  then obtain a b where "xs = a @ [c] @ b" by (auto dest: split_list)
  then show "sublist [c] xs" unfolding sublist_def by blast
qed

lemma overlap_head: "overlap a b \<Longrightarrow> b \<noteq> [] \<and> hd b \<in> set a"
proof -
  assume "overlap a b"
  then obtain u where u: "u \<noteq> []" "suffix u a" "prefix u b" unfolding overlap_iff by blast
  then obtain c u' where c: "u = c # u'" by (cases u) auto
  with u(3) have "b \<noteq> []" "hd b = c" by (auto simp: prefix_def)
  moreover from u(2) c have "c \<in> set a" by (auto simp: suffix_def)
  ultimately show ?thesis by simp
qed

lemma no_overlap_by_head: "b = [] \<or> hd b \<notin> set a \<Longrightarrow> \<not> overlap a b"
  using overlap_head by blast

text \<open>A rule whose pattern is separated and whose replacement is the match with a text behind it.\<close>

lemma inserting_rule_keeps_text:
  assumes sep: "separated p"
    and ex: "\<And>x n. re_match p x = Some n \<Longrightarrow> expand r (take n x) = take n x @ ins"
    and needle: "sublist w (tl (outline p))" "\<not> sublist w (squeeze t)"
    and ov: "\<not> overlap (outline p) (squeeze t)" "\<not> overlap (outline p) (tl (squeeze t))"
    and t: "sublist t s"
  shows "sublist t (re_sub p r s)"
proof (rule rule_keeps_text [where d = 0 and ins = ins and kz = "outline p" and w = w])
  fix x n assume m: "re_match p x = Some n"
  from separated_match [OF sep m] have s: "0 < n" "squeeze (take n x) = outline p"
    "\<not> is_space (last (take n x))" by simp_all
  from s(1) re_match_le [OF m] have "take n x \<noteq> []" by auto
  with s show "squeeze (take (n - 0) x) = outline p \<and> take (n - 0) x \<noteq> [] \<and>
      \<not> is_space (last (take (n - 0) x))" by simp
  from s(1) ex [OF m]
  show "0 < n \<and> expand r (take n x) = take (n - 0) x @ ins @ drop (n - 0) (take n x)" by simp
qed (fact needle ov t)+

text \<open>A rule whose pattern is a literal text and that inserts before its last character.\<close>

lemma literal_rule_keeps_text:
  assumes ex: "expand r l = butlast l @ ins @ [last l]"
    and l: "butlast l \<noteq> []" "\<not> is_space (last (butlast l))"
    and needle: "sublist w (tl (squeeze (butlast l)))" "\<not> sublist w (squeeze t)"
    and ov: "\<not> overlap (squeeze (butlast l)) (squeeze t)"
      "\<not> overlap (squeeze (butlast l)) (tl (squeeze t))"
    and t: "sublist t s"
  shows "sublist t (re_sub (map Lit l) r s)"
proof (rule rule_keeps_text [where d = 1 and ins = ins and kz = "squeeze (butlast l)" and w = w])
  fix x n assume "re_match (map Lit l) x = Some n"
  then have "re_match (map Lit l @ []) x = Some n" by simp
  from re_match_literal [OF this] obtain y where x: "x = l @ y" and n: "n = length l" by auto
  from l(1) have l2: "l \<noteq> []" by auto
  then have "1 < length l" using l(1) by (cases l) auto
  moreover have tk: "take (n - 1) x = butlast l" by (simp add: x n butlast_conv_take)
  moreover have "drop (length l - 1) l = [last l]"
    using l2 by (cases l rule: rev_cases) auto
  then have "drop (n - 1) (take n x) = [last l]" by (simp add: x n)
  moreover have "take n x = l" by (simp add: x n)
  ultimately show "1 < n \<and> expand r (take n x) =
      take (n - 1) x @ ins @ drop (n - 1) (take n x)" using ex n by simp
  from tk l show "squeeze (take (n - 1) x) = squeeze (butlast l) \<and> take (n - 1) x \<noteq> [] \<and>
      \<not> is_space (last (take (n - 1) x))" by simp
qed (fact needle ov t)+

lemma literal_rule_creates:
  "l \<noteq> [] \<Longrightarrow> sublist l s \<Longrightarrow> sublist (expand r l) (re_sub (map Lit l) r s)"
proof (induction s)
  case Nil
  then show ?case by simp
next
  case (Cons c cs)
  from Cons.prems(2) consider "prefix l (c # cs)" | "sublist l cs"
    by (auto simp: sublist_Cons_right)
  then show ?case
  proof cases
    case 1
    then obtain y where y: "c # cs = l @ y" by (auto simp: prefix_def)
    from re_sub_literal_hit [OF Cons.prems(1), of r y]
    show ?thesis unfolding y by simp
  next
    case 2
    with Cons have ih: "sublist (expand r l) (re_sub (map Lit l) r cs)" by simp
    show ?thesis
    proof (cases "re_match (map Lit l) (c # cs)")
      case None
      then have "re_sub (map Lit l) r (c # cs) = [c] @ re_sub (map Lit l) r cs" by simp
      moreover from ih have "sublist (expand r l) ([c] @ re_sub (map Lit l) r cs)"
        by (rule sublist_appL)
      ultimately show ?thesis by (simp only:)
    next
      case (Some n)
      then have "re_match (map Lit l @ []) (c # cs) = Some n" by simp
      from re_match_literal [OF this] obtain y where y: "c # cs = l @ y" by auto
      from re_sub_literal_hit [OF Cons.prems(1), of r y]
      show ?thesis unfolding y by simp
    qed
  qed
qed

section \<open>The condition line after the medical integration\<close>

lemma medical_condition_end_squeezed: "squeeze medical_condition_end = medical_condition_end"
  by (simp add: medical_condition_end_def str_def squeeze_def is_space_def)

lemma medical_condition_end_chars:
  "123 \<notin> set medical_condition_end" "47 \<notin> set medical_condition_end"
  "72 \<notin> set medical_condition_end"
  "hd medical_condition_end = 124" "hd (tl medical_condition_end) = 124"
  by (simp_all add: medical_condition_end_def str_def)

lemma medical_rule1_makes_condition_end:
  assumes "sublist condition_line content"
  shows "sublist medical_condition_end (re_sub medical_pattern1 medical_replacement1 content)"
proof -
  have p: "medical_pattern1 = map Lit condition_line"
    by (simp add: medical_pattern1_def condition_line_def lits_str)
  have ne: "condition_line \<noteq> []" by (simp add: condition_line_def str_def)
  have "expand medical_replacement1 condition_line =
      str ''if (object.userData.type === 'trashTruck' || object.userData.type === 'convoyeur' '' @
      medical_condition_end"
    by (simp add: medical_replacement1_def medical_condition_end_def str_def)
  then have "sublist medical_condition_end (expand medical_replacement1 condition_line)"
    by simp
  moreover have "sublist (expand medical_replacement1 condition_line)
      (re_sub (map Lit condition_line) medical_replacement1 content)"
    using ne assms by (rule literal_rule_creates)
  ultimately show ?thesis unfolding p by (rule sublist_order.order.trans)
qed

lemma medical_rule2_keeps_condition_end:
  assumes "sublist medical_condition_end s"
  shows "sublist medical_condition_end (re_sub medical_pattern2 medical_replacement2 s)"
proof (rule inserting_rule_keeps_text [where w = "[123]" and ins = medical_modal_block])
  show "separated medical_pattern2"
    by (simp add: medical_pattern2_def lits_def is_space_def)
  show "expand medical_replacement2 (take n x) = take n x @ medical_modal_block" for x n
    by (simp add: medical_replacement2_def medical_modal_block_def)
  show "sublist [123] (tl (outline medical_pattern2))"
    unfolding sublist_single by (simp add: medical_pattern2_def lits_def outline_def is_space_def)
  show "\<not> sublist [123] (squeeze medical_condition_end)"
    unfolding sublist_single medical_condition_end_squeezed
    by (rule medical_condition_end_chars)
  have "124 \<notin> set (outline medical_pattern2)"
    by (simp add: medical_pattern2_def lits_def outline_def is_space_def)
  then show "\<not> overlap (outline medical_pattern2) (squeeze medical_condition_end)"
    "\<not> overlap (outline medical_pattern2) (tl (squeeze medical_condition_end))"
    unfolding medical_condition_end_squeezed
    by (auto intro!: no_overlap_by_head simp: medical_condition_end_chars)
qed (fact assms)

lemma medical_rule3_keeps_condition_end:
  assumes "sublist medical_condition_end s"
  shows "sublist medical_condition_end (re_sub medical_pattern3 medical_replacement3 s)"
proof (rule inserting_rule_keeps_text
    [where w = "[47]" and ins = "expand medical_replacement3 []"])
  show "separated medical_pattern3"
    by (simp add: medical_pattern3_def lits_def is_space_def)
  show "expand medical_replacement3 (take n x) = take n x @ expand medical_replacement3 []" for x n
    by (simp add: medical_replacement3_def)
  show "sublist [47] (tl (outline medical_pattern3))"
    unfolding sublist_single by (simp add: medical_pattern3_def lits_def outline_def is_space_def)
  show "\<not> sublist [47] (squeeze medical_condition_end)"
    unfolding sublist_single medical_condition_end_squeezed
    by (rule medical_condition_end_chars)
  have "124 \<notin> set (outline medical_pattern3)"
    by (simp add: medical_pattern3_def lits_def outline_def is_space_def)
  then show "\<not> overlap (outline medical_pattern3) (squeeze medical_condition_end)"
    "\<not> overlap (outline medical_pattern3) (tl (squeeze medical_condition_end))"
    unfolding medical_condition_end_squeezed
    by (auto intro!: no_overlap_by_head simp: medical_condition_end_chars)
qed (fact assms)

lemma medical_rule4_keeps_condition_end:
  assumes "sublist medical_condition_end s"
  shows "sublist medical_condition_end (re_sub medical_pattern4 medical_replacement4 s)"
  unfolding camera_comment_pattern
proof (rule literal_rule_keeps_text [where w = "[72]" and ins = "str '', medical''"])
  have b: "butlast camera_comment =
      str ''// Handle objects that don't need camera movement (trashTruck, convoyeur, sensorSensei''"
    by (simp add: camera_comment_def str_def)
  have sq: "squeeze (butlast camera_comment) = butlast camera_comment"
    unfolding b by (simp add: str_def squeeze_def is_space_def)
  show "expand medical_replacement4 camera_comment =
      butlast camera_comment @ str '', medical'' @ [last camera_comment]"
    unfolding b by (simp add: medical_replacement4_def camera_comment_def str_def)
  show "butlast camera_comment \<noteq> []" "\<not> is_space (last (butlast camera_comment))"
    unfolding b by (simp_all add: str_def is_space_def)
  show "sublist [72] (tl (squeeze (butlast camera_comment)))"
    unfolding sublist_single sq by (simp add: b str_def)
  show "\<not> sublist [72] (squeeze medical_condition_end)"
    unfolding sublist_single medical_condition_end_squeezed
    by (rule medical_condition_end_chars)
  have "124 \<notin> set (butlast camera_comment)" unfolding b by (simp add: str_def)
  then show "\<not> overlap (squeeze (butlast camera_comment)) (squeeze medical_condition_end)"
    "\<not> overlap (squeeze (butlast camera_comment)) (tl (squeeze medical_condition_end))"
    unfolding medical_condition_end_squeezed sq
    by (auto intro!: no_overlap_by_head simp: medical_condition_end_chars)
qed (fact assms)

text \<open>
  Claim C2. When the buffer contains the condition line with \<^verbatim>\<open>trashTruck\<close>,
  \<^verbatim>\<open>convoyeur\<close> and \<^verbatim>\<open>sensorSensei\<close>, the buffer after the four rules of
  \<^verbatim>\<open>update_medical.py\<close> contains
  \<^verbatim>\<open>|| object.userData.type === 'sensorSensei' || object.userData.type === 'medical')\<close>.
\<close>

theorem medical_condition_added:
  assumes "sublist condition_line content"
  shows "sublist medical_condition_end (medical_transform content)"
  unfolding medical_transform_def Let_def
  by (intro medical_rule4_keeps_condition_end medical_rule3_keeps_condition_end
      medical_rule2_keeps_condition_end medical_rule1_makes_condition_end assms)

theorem medical_condition_added_witness:
  "sublist medical_condition_end (medical_transform (str ''a = 1; '' @ condition_line @ str '' { }''))"
proof -
  have "sublist condition_line (str ''a = 1; '' @ condition_line @ str '' { }'')" by simp
  then show ?thesis by (rule medical_condition_added)
qed

section \<open>Matches that overlap\<close>




section \<open>The text behind a match\<close>



section \<open>The rules of the forviaCAR integration\<close>

lemma prefix_if: "prefix (x # xs) (y # ys) = (if x = y then prefix xs ys else False)"
  by simp























section \<open>The forviaCAR blocks behind the medical blocks\<close>







lemma sample_block_matches:
  "re_match pattern2 medical_modal_block = Some 113"
  "re_match pattern4 reset_overview_outline = Some 113"
  "re_match pattern5 medical_reset_areas = Some 145"
  by (simp_all add: pattern2_def pattern4_def pattern5_def lits_def str_def is_space_def
        medical_modal_block_def medical_replacement2_def reset_overview_outline_def
        medical_reset_areas_def medical_replacement3_def)

lemma sample_block_lengths:
  "length medical_modal_block = 113" "length reset_overview_outline = 113"
  "length medical_reset_areas = 145"
  by (simp_all add: str_def medical_modal_block_def medical_replacement2_def
        reset_overview_outline_def medical_reset_areas_def medical_replacement3_def)


section \<open>A buffer with one match\<close>

lemma find_all_none: "find_all p s = [] \<Longrightarrow> re_sub p r s = s"
  by (induction p s rule: find_all.induct) (auto split: option.splits nat.splits)

lemma find_all_single:
  assumes "find_all p s = [m]"
  shows "\<exists>pre post. s = pre @ m @ post \<and> re_match p (m @ post) = Some (length m)
           \<and> re_sub p r s = pre @ expand r m @ post"
  using assms
proof (induction p s rule: find_all.induct)
  case (1 p)
  then obtain n where n: "re_match p [] = Some n" and m: "m = []"
    by (auto split: option.splits)
  from re_match_le [OF n] have "n = 0" by simp
  with n m show ?case by simp
next
  case (2 p c cs)
  show ?case
  proof (cases "re_match p (c # cs)")
    case None
    with 2 obtain pre post where "cs = pre @ m @ post" "re_match p (m @ post) = Some (length m)"
      "re_sub p r cs = pre @ expand r m @ post" by auto
    with None have "c # cs = (c # pre) @ m @ post \<and> re_match p (m @ post) = Some (length m)
      \<and> re_sub p r (c # cs) = (c # pre) @ expand r m @ post" by simp
    then show ?thesis by blast
  next
    case (Some k)
    show ?thesis
    proof (cases k)
      case 0
      with Some 2 have m: "m = []" and rest: "find_all p cs = []" by simp_all
      from find_all_none [OF rest] Some 0 m
      have "c # cs = [] @ m @ (c # cs) \<and> re_match p (m @ c # cs) = Some (length m)
        \<and> re_sub p r (c # cs) = [] @ expand r m @ c # cs" by simp
      then show ?thesis by blast
    next
      case (Suc n)
      with Some 2 have m: "m = take (Suc n) (c # cs)" and rest: "find_all p (drop n cs) = []"
        by simp_all
      from re_match_le [OF Some] Suc have len: "n \<le> length cs" by simp
      from find_all_none [OF rest] Some Suc m len
      have "c # cs = [] @ m @ drop n cs \<and> re_match p (m @ drop n cs) = Some (length m)
        \<and> re_sub p r (c # cs) = [] @ expand r m @ drop n cs" by simp
      then show ?thesis by blast
    qed
  qed
qed

lemma find_all_whole:
  assumes "re_match p s = Some (length s)" "s \<noteq> []"
  shows "find_all p s = [s]"
proof -
  from assms obtain c cs where s: "s = c # cs" by (cases s) auto
  have "p \<noteq> []" using assms by auto
  then have "re_match p [] = None"
    using re_match_pos [of p "[]"] re_match_le [of p "[]"] by (cases "re_match p []") auto
  with assms(1) s show ?thesis by simp
qed

text \<open>
  Claim C1, as amended. When the scan of \<^verbatim>\<open>re.sub\<close> finds exactly one match \<open>m\<close> of the
  pattern of a rule in the buffer, applying the rule puts the replacement text, with \<open>m\<close>
  for \<^verbatim>\<open>\1\<close>, in the place of that match and keeps the text before and after it. For a
  rule whose replacement begins with \<^verbatim>\<open>\1\<close> the matched text therefore stays in the
  buffer, with the rest of the replacement inserted behind it.
\<close>

theorem rule_on_single_match:
  assumes "find_all (fst rule) content = [m]"
  shows "\<exists>pre post.
           content = pre @ m @ post
         \<and> re_match (fst rule) (m @ post) = Some (length m)
         \<and> apply_rule rule content =
             pre @ concat (map (\<lambda>part. case part of Txt t \<Rightarrow> t | Group1 \<Rightarrow> m) (snd rule)) @ post
         \<and> (\<forall>t. snd rule = Group1 # t \<longrightarrow>
              apply_rule rule content =
                pre @ m @ concat (map (\<lambda>part. case part of Txt t \<Rightarrow> t | Group1 \<Rightarrow> m) t) @ post)"
proof -
  have "apply_rule rule content = re_sub (fst rule) (snd rule) content" by (cases rule) simp
  with find_all_single [OF assms, of "snd rule"] obtain pre post where
    1: "content = pre @ m @ post" "re_match (fst rule) (m @ post) = Some (length m)"
    and 2: "apply_rule rule content =
      pre @ concat (map (\<lambda>part. case part of Txt t \<Rightarrow> t | Group1 \<Rightarrow> m) (snd rule)) @ post"
    by (auto simp: expand_concat)
  have "\<forall>t. snd rule = Group1 # t \<longrightarrow> apply_rule rule content =
      pre @ m @ concat (map (\<lambda>part. case part of Txt t \<Rightarrow> t | Group1 \<Rightarrow> m) t) @ post"
    using 2 by simp
  with 1 2 show ?thesis by blast
qed

lemma append_around_self: "m = pre @ m @ post \<Longrightarrow> pre = [] \<and> post = []"
  by (drule arg_cong [where f = length]) simp

text \<open>
  Claim C1, as stated, fails in both of its parts. The buffer \<open>sensor_block\<close> has one
  match of pattern 2 of \<^verbatim>\<open>update_medical.py\<close>, the whole buffer, and the buffer after the
  rule still begins with that matched text, because the replacement begins with \<^verbatim>\<open>\1\<close>.
  The buffer that holds the comment with \<^verbatim>\<open>medical\<close> and, behind it, the comment that
  pattern 4 of \<^verbatim>\<open>update_medical.py\<close> looks for has one match of that pattern, and the
  buffer after the rule holds the replacement text twice.
\<close>

theorem single_match_counterexample:
  "find_all medical_pattern2 sensor_block = [sensor_block]
   \<and> apply_rule (medical_pattern2, medical_replacement2) sensor_block =
       sensor_block @ medical_modal_block
   \<and> sublist sensor_block (apply_rule (medical_pattern2, medical_replacement2) sensor_block)
   \<and> medical_replacement4 = [Txt medical_comment]
   \<and> find_all medical_pattern4 (medical_comment @ 32 # camera_comment) = [camera_comment]
   \<and> apply_rule (medical_pattern4, medical_replacement4) (medical_comment @ 32 # camera_comment) =
       medical_comment @ 32 # medical_comment
   \<and> occurrences medical_comment
         (apply_rule (medical_pattern4, medical_replacement4) (medical_comment @ 32 # camera_comment)) = 2"
proof -
  have m: "re_match medical_pattern2 sensor_block = Some (length sensor_block)"
    using sensor_block_match [of "[]"] by (simp add: sensor_block_length)
  have "sensor_block \<noteq> []" using sensor_block_length by auto
  with m have 1: "find_all medical_pattern2 sensor_block = [sensor_block]"
    by (rule find_all_whole)
  have 2: "apply_rule (medical_pattern2, medical_replacement2) sensor_block =
      sensor_block @ medical_modal_block"
    using medical_rule2_on_sensor_block [of "[]"] by (simp add: medical_pattern2_def)
  have 3: "medical_replacement4 = [Txt medical_comment]"
    by (simp add: medical_replacement4_def medical_comment_def)
  have 4: "find_all medical_pattern4 (medical_comment @ 32 # camera_comment) = [camera_comment]"
    by (simp add: medical_pattern4_def lits_def medical_comment_def camera_comment_def str_def)
  have 5: "apply_rule (medical_pattern4, medical_replacement4)
      (medical_comment @ 32 # camera_comment) = medical_comment @ 32 # medical_comment"
    by (simp add: medical_pattern4_def medical_replacement4_def lits_def medical_comment_def
          camera_comment_def str_def)
  have 6: "occurrences medical_comment (medical_comment @ 32 # medical_comment) = 2"
    by (simp add: medical_comment_def str_def prefix_if del: Cons_prefix_Cons)
  from 1 2 3 4 5 6 show ?thesis by simp
qed

theorem rule_on_single_match_witness:
  "apply_rule (pattern2, replacement2)
     (10 # str ''        if (object.userData.type === 'medical' && !medicalModalClosed) {'' @
      10 # str ''          showMedicalModal();'' @
      10 # str ''        }'') =
   10 # str ''        if (object.userData.type === 'medical' && !medicalModalClosed) {'' @
   10 # str ''          showMedicalModal();'' @
   10 # str ''        }'' @
   10 # str ''        if (object.userData.type === 'forviaCAR' && !forviaCarModalClosed) {'' @
   10 # str ''          showForviaCarModal();'' @
   10 # str ''        }''"
proof -
  let ?b = "10 # str ''        if (object.userData.type === 'medical' && !medicalModalClosed) {'' @
      10 # str ''          showMedicalModal();'' @
      10 # str ''        }''"
  have b: "?b = medical_modal_block"
    by (simp add: medical_modal_block_def medical_replacement2_def)
  have "medical_modal_block \<noteq> []" using sample_block_lengths(1) by auto
  then have "find_all (fst (pattern2, replacement2)) medical_modal_block = [medical_modal_block]"
    using sample_block_matches(1) by (simp add: find_all_whole sample_block_lengths(1))
  from rule_on_single_match [OF this] obtain pre post where
    1: "medical_modal_block = pre @ medical_modal_block @ post"
    and 2: "\<forall>t. snd (pattern2, replacement2) = Group1 # t \<longrightarrow>
      apply_rule (pattern2, replacement2) medical_modal_block =
        pre @ medical_modal_block @
        concat (map (\<lambda>part. case part of Txt t \<Rightarrow> t | Group1 \<Rightarrow> medical_modal_block) t) @ post"
    by blast
  from append_around_self [OF 1] have 3: "pre = []" "post = []" by simp_all
  have "snd (pattern2, replacement2) = Group1 # tl replacement2" by (simp add: replacement2_def)
  with 2 have "apply_rule (pattern2, replacement2) medical_modal_block =
      pre @ medical_modal_block @
      concat (map (\<lambda>part. case part of Txt t \<Rightarrow> t | Group1 \<Rightarrow> medical_modal_block)
        (tl replacement2)) @ post" by blast
  then have "apply_rule (pattern2, replacement2) medical_modal_block =
      medical_modal_block @
      concat (map (\<lambda>part. case part of Txt t \<Rightarrow> t | Group1 \<Rightarrow> medical_modal_block)
        (tl replacement2))"
    by (simp only: 3 append_Nil append_Nil2)
  also have "\<dots> = ?b @
      10 # str ''        if (object.userData.type === 'forviaCAR' && !forviaCarModalClosed) {'' @
      10 # str ''          showForviaCarModal();'' @
      10 # str ''        }''"
    by (simp add: replacement2_def medical_modal_block_def medical_replacement2_def)
  finally show ?thesis unfolding b [symmetric] by (simp only: append.simps append_assoc)
qed

section \<open>The forvia patterns need the text of the medical integration\<close>










end
